theory Spec2Isabelle
  imports Complex_Main "HOL-Library.Multiset" "HOL-Library.Word"
begin

section \<open>The HTTP response writer\<close>

text \<open>
  The handlers of the repository write through \<open>http.ResponseWriter\<close>. Its observable
  state is the header map \<open>w.Header()\<close>, the status line fixed by the first
  \<open>WriteHeader\<close> (or by the first \<open>Write\<close>, which sends 200 when no status was
  written) and the bytes written to the body, as \<open>httptest.ResponseRecorder\<close> records
  them. \<open>WriteHeader\<close> panics on a status code outside \<open>100..999\<close>; \<open>aborted\<close> records
  that a call made through the writer panicked, at which point the caller stops and
  nothing more is written.
\<close>

record ResponseWriter =
  header :: "string \<rightharpoonup> string"
  status :: "int option"
  body :: string
  aborted :: bool

definition NewRecorder :: ResponseWriter where
  "NewRecorder = \<lparr>header = Map.empty, status = None, body = [], aborted = False\<rparr>"

definition Header_Set :: "string \<Rightarrow> string \<Rightarrow> ResponseWriter \<Rightarrow> ResponseWriter" where
  "Header_Set k v w = w\<lparr>header := (header w)(k \<mapsto> v)\<rparr>"

definition Header_Del :: "string \<Rightarrow> ResponseWriter \<Rightarrow> ResponseWriter" where
  "Header_Del k w = w\<lparr>header := (header w)(k := None)\<rparr>"

text \<open>\<open>w.WriteHeader(code)\<close>: a call after the status was written is ignored; otherwise
  the code is checked (\<open>checkWriteHeaderCode\<close>) and a code below 100 or above 999 panics,
  which is the result \<open>None\<close>.\<close>

definition WriteHeader :: "int \<Rightarrow> ResponseWriter \<Rightarrow> ResponseWriter option" where
  "WriteHeader c w =
     (case status w of
        Some _ \<Rightarrow> Some w
      | None \<Rightarrow> if c < 100 \<or> c > 999 then None else Some (w\<lparr>status := Some c\<rparr>))"

text \<open>\<open>w.Write(bs)\<close>: sends 200 first when no status was written.\<close>

definition Write :: "string \<Rightarrow> ResponseWriter \<Rightarrow> ResponseWriter" where
  "Write bs w =
     (case status w of
        None \<Rightarrow> w\<lparr>status := Some 200, body := body w @ bs\<rparr>
      | Some _ \<Rightarrow> w\<lparr>body := body w @ bs\<rparr>)"

text \<open>The writer left behind by a call that panicked.\<close>

definition panic :: "ResponseWriter \<Rightarrow> ResponseWriter" where
  "panic w = w\<lparr>aborted := True\<rparr>"

text \<open>\<open>http.Error(w, msg, code)\<close>: the Content-Length header is deleted, the plain-text
  headers are set, then the status, then the message and a newline (\<open>fmt.Fprintln\<close>).\<close>

definition http_Error :: "ResponseWriter \<Rightarrow> string \<Rightarrow> int \<Rightarrow> ResponseWriter" where
  "http_Error w msg c =
     (let w = Header_Del ''Content-Length'' w;
          w = Header_Set ''Content-Type'' ''text/plain; charset=utf-8'' w;
          w = Header_Set ''X-Content-Type-Options'' ''nosniff'' w
      in case WriteHeader c w of
           None \<Rightarrow> panic w
         | Some w \<Rightarrow> Write (msg @ [CHR 0x0A]) w)"

abbreviation StatusCreated :: int where "StatusCreated \<equiv> 201"
abbreviation StatusBadRequest :: int where "StatusBadRequest \<equiv> 400"
abbreviation StatusMethodNotAllowed :: int where "StatusMethodNotAllowed \<equiv> 405"
abbreviation StatusTooManyRequests :: int where "StatusTooManyRequests \<equiv> 429"
abbreviation StatusInternalServerError :: int where "StatusInternalServerError \<equiv> 500"

record Request =
  Method :: string
  RemoteAddr :: string
  Body :: string

section \<open>respondWithJSON, twice\<close>

text \<open>
  Both helpers take the payload as \<open>interface{}\<close> and hand it to \<open>encoding/json\<close>.
  The encoder is a parameter \<open>marshal\<close>: \<open>None\<close> is \<open>json.Marshal\<close> returning an
  error, \<open>Some bs\<close> its bytes.
\<close>

text \<open>\<open>respondWithJSON\<close> of the HTTP-testing file: marshal first, answer 500 without
  a body when marshalling fails, otherwise header, status, bytes.\<close>

definition respondWithJSON_testing ::
  "('p \<Rightarrow> string option) \<Rightarrow> ResponseWriter \<Rightarrow> int \<Rightarrow> 'p \<Rightarrow> ResponseWriter" where
  "respondWithJSON_testing marshal w c payload =
     (case marshal payload of
        None \<Rightarrow>
          (case WriteHeader StatusInternalServerError w of
             None \<Rightarrow> panic w
           | Some w \<Rightarrow> w)
      | Some response \<Rightarrow>
          (let w = Header_Set ''Content-Type'' ''application/json'' w
           in case WriteHeader c w of
                None \<Rightarrow> panic w
              | Some w \<Rightarrow> Write response w))"

text \<open>\<open>json.NewEncoder(w).Encode(data)\<close>: the encoding followed by a newline, in one
  \<open>Write\<close>; nothing is written when encoding fails.\<close>

definition Encoder_Encode :: "('p \<Rightarrow> string option) \<Rightarrow> 'p \<Rightarrow> ResponseWriter \<Rightarrow> ResponseWriter" where
  "Encoder_Encode marshal v w =
     (case marshal v of None \<Rightarrow> w | Some bs \<Rightarrow> Write (bs @ [CHR 0x0A]) w)"

text \<open>\<open>respondWithJSON\<close> of the book service: header, status, then the encoder; the
  encoder's error is dropped.\<close>

definition respondWithJSON_books ::
  "('p \<Rightarrow> string option) \<Rightarrow> ResponseWriter \<Rightarrow> int \<Rightarrow> 'p \<Rightarrow> ResponseWriter" where
  "respondWithJSON_books marshal w st data =
     (let w = Header_Set ''Content-Type'' ''application/json'' w
      in case WriteHeader st w of
           None \<Rightarrow> panic w
         | Some w \<Rightarrow> Encoder_Encode marshal data w)"

text \<open>\<open>json.Marshal\<close> on a Go \<open>bool\<close>, the payload of the concrete examples.\<close>

definition marshal_bool :: "bool \<Rightarrow> string option" where
  "marshal_bool b = Some (if b then ''true'' else ''false'')"

section \<open>The book service\<close>

text \<open>
  A \<open>float64\<close> is a finite value, an infinity or NaN; the service only compares the
  price with zero, and NaN compares false with everything.
\<close>

datatype float64 = Finite rat | PosInf | NegInf | NaN

fun float64_le_zero :: "float64 \<Rightarrow> bool" where
  "float64_le_zero (Finite r) = (r \<le> 0)"
| "float64_le_zero PosInf = False"
| "float64_le_zero NegInf = True"
| "float64_le_zero NaN = False"

text \<open>A \<open>time.Time\<close> is an instant, counted in nanoseconds.\<close>

type_synonym time = int

text \<open>Book identifiers are Go \<open>int\<close>s, 64 bits wide; \<open>nextID++\<close> wraps around.\<close>

type_synonym go_int = "64 word"

record Book =
  ID :: go_int
  Title :: string
  Author :: string
  Price :: float64
  CreatedAt :: time

definition zero_Book :: Book where
  "zero_Book = \<lparr>ID = 0, Title = [], Author = [], Price = Finite 0, CreatedAt = 0\<rparr>"

text \<open>The embedded \<open>sync.RWMutex\<close> serialises the methods; each method is one atomic
  step on the remaining fields.\<close>

record BookStore =
  books :: "go_int \<rightharpoonup> Book"
  nextID :: go_int
  idCounter :: go_int

definition GetBook :: "BookStore \<Rightarrow> go_int \<Rightarrow> Book \<times> bool" where
  "GetBook bs i = (case books bs i of None \<Rightarrow> (zero_Book, False) | Some b \<Rightarrow> (b, True))"

text \<open>\<open>AddBook\<close>; \<open>now\<close> is the reading of \<open>time.Now()\<close>.\<close>

definition AddBook :: "time \<Rightarrow> BookStore \<Rightarrow> Book \<Rightarrow> BookStore \<times> go_int" where
  "AddBook now bs book =
     (let book = book\<lparr>ID := nextID bs\<rparr>;
          book = book\<lparr>CreatedAt := now\<rparr>;
          bs = bs\<lparr>books := (books bs)(ID book \<mapsto> book)\<rparr>;
          bs = bs\<lparr>nextID := nextID bs + 1\<rparr>
      in (bs, ID book))"

definition UpdateBook :: "BookStore \<Rightarrow> go_int \<Rightarrow> Book \<Rightarrow> BookStore \<times> bool" where
  "UpdateBook bs i book =
     (case books bs i of
        None \<Rightarrow> (bs, False)
      | Some old \<Rightarrow>
          (let book = book\<lparr>ID := i\<rparr>;
               book = book\<lparr>CreatedAt := CreatedAt old\<rparr>
           in (bs\<lparr>books := (books bs)(i \<mapsto> book)\<rparr>, True)))"

text \<open>\<open>handleCreateBook\<close>. \<open>decode\<close> stands for
  \<open>json.NewDecoder(r.Body).Decode(&book)\<close> on a zero \<open>Book\<close>: \<open>None\<close> when it returns
  an error, \<open>Some book\<close> otherwise.\<close>

definition handleCreateBook ::
  "(string \<Rightarrow> Book option) \<Rightarrow> (Book \<Rightarrow> string option) \<Rightarrow> time
     \<Rightarrow> ResponseWriter \<Rightarrow> Request \<Rightarrow> BookStore \<Rightarrow> ResponseWriter \<times> BookStore" where
  "handleCreateBook decode marshal now w r store =
     (if Method r \<noteq> ''POST''
      then (http_Error w ''Method not allowed'' StatusMethodNotAllowed, store)
      else case decode (Body r) of
        None \<Rightarrow> (http_Error w ''Invalid request body'' StatusBadRequest, store)
      | Some book \<Rightarrow>
          if Title book = [] \<or> Author book = [] \<or> float64_le_zero (Price book)
          then (http_Error w ''Invalid book data: title, author and price are required''
                  StatusBadRequest, store)
          else
            let (store, i) = AddBook now store book;
                (createdBook, _) = GetBook store i
            in (respondWithJSON_books marshal w StatusCreated createdBook, store))"

subsection \<open>Concrete stores, books and requests\<close>

definition empty_store :: BookStore where
  "empty_store = \<lparr>books = Map.empty, nextID = 1, idCounter = 0\<rparr>"

definition sample_store :: BookStore where
  "sample_store =
     \<lparr>books = [1 \<mapsto> \<lparr>ID = 1, Title = ''Go in Action'', Author = ''William Kennedy'',
                       Price = Finite 24.99, CreatedAt = 1000\<rparr>],
      nextID = 2, idCounter = 0\<rparr>"

definition sample_update :: Book where
  "sample_update = \<lparr>ID = 7, Title = ''Concurrency in Go'', Author = ''Katherine Cox-Buday'',
                       Price = Finite 34.99, CreatedAt = 5\<rparr>"

definition untitled_book :: Book where
  "untitled_book = \<lparr>ID = 0, Title = [], Author = ''Alan Donovan'', Price = Finite 32.99,
                       CreatedAt = 0\<rparr>"

definition titled_book :: Book where
  "titled_book = \<lparr>ID = 0, Title = ''Go in Action'', Author = ''William Kennedy'',
                     Price = Finite 24.99, CreatedAt = 0\<rparr>"

definition post_books :: Request where
  "post_books = \<lparr>Method = ''POST'', RemoteAddr = ''10.0.0.1:4000'', Body = ''{}''\<rparr>"

section \<open>The rate-limiting middleware\<close>

text \<open>
  \<open>RateLimitMiddleware(requestsPerMinute)\<close> closes over the map \<open>requestCounts\<close> and the
  time \<open>lastResetTime\<close>; the mutex makes each locked region atomic, and the handler is
  modelled as one step of a state machine on these two variables. The counts are Go
  \<open>int\<close>s, so \<open>requestCounts[clientIP]++\<close> wraps around and \<open>count > requestsPerMinute\<close>
  compares signed values.
\<close>

record limiter =
  requestCounts :: "string \<rightharpoonup> go_int"
  lastResetTime :: time

definition RateLimitMiddleware :: "time \<Rightarrow> limiter" where
  "RateLimitMiddleware now = \<lparr>requestCounts = Map.empty, lastResetTime = now\<rparr>"

text \<open>\<open>time.Minute\<close> in nanoseconds, and \<open>time.Since\<close> against a clock reading.\<close>

definition Minute :: int where
  "Minute = 60 * 1000000000"

definition Since :: "time \<Rightarrow> time \<Rightarrow> int" where
  "Since t now = now - t"

text \<open>Reading a Go map at a missing key gives the zero value.\<close>

definition counted :: "limiter \<Rightarrow> string \<Rightarrow> go_int" where
  "counted rl ip = (case requestCounts rl ip of None \<Rightarrow> 0 | Some c \<Rightarrow> c)"

text \<open>
  The first part of the handler: the check under the read lock at clock reading \<open>t1\<close>,
  the second check under the write lock at \<open>t2\<close>, and the reset stamped with a third
  reading \<open>t3\<close>.
\<close>

definition reset_if_due :: "time \<Rightarrow> time \<Rightarrow> time \<Rightarrow> limiter \<Rightarrow> limiter" where
  "reset_if_due t1 t2 t3 rl =
     (if Since (lastResetTime rl) t1 > Minute
      then (if Since (lastResetTime rl) t2 > Minute
            then \<lparr>requestCounts = Map.empty, lastResetTime = t3\<rparr>
            else rl)
      else rl)"

text \<open>
  The handler returned by the middleware. \<open>next\<close> is the wrapped handler; it works on
  the response and on a state \<open>'h\<close> of its own, so that a call to it can be observed.
\<close>

definition rate_limited ::
  "go_int \<Rightarrow> ('h \<Rightarrow> ResponseWriter \<Rightarrow> Request \<Rightarrow> 'h \<times> ResponseWriter)
     \<Rightarrow> time \<Rightarrow> time \<Rightarrow> time
     \<Rightarrow> limiter \<times> 'h \<Rightarrow> ResponseWriter \<Rightarrow> Request \<Rightarrow> (limiter \<times> 'h) \<times> ResponseWriter" where
  "rate_limited requestsPerMinute next t1 t2 t3 st w r =
     (let (rl, h) = st;
          clientIP = RemoteAddr r;
          rl = reset_if_due t1 t2 t3 rl;
          rl = rl\<lparr>requestCounts := (requestCounts rl)(clientIP \<mapsto> counted rl clientIP + 1)\<rparr>;
          cnt = counted rl clientIP
      in if sint cnt > sint requestsPerMinute
         then ((rl, h), http_Error w ''Rate limit exceeded'' StatusTooManyRequests)
         else (let (h, w) = next h w r in ((rl, h), w)))"

text \<open>A wrapped handler that counts its calls and answers 200 with \<open>ok\<close>.\<close>

definition counting_handler :: "nat \<Rightarrow> ResponseWriter \<Rightarrow> Request \<Rightarrow> nat \<times> ResponseWriter" where
  "counting_handler calls w r = (calls + 1, Write ''ok'' w)"

definition busy_limiter :: limiter where
  "busy_limiter = \<lparr>requestCounts = [''10.0.0.1:4000'' \<mapsto> 2, ''10.0.0.2:4000'' \<mapsto> 1],
                    lastResetTime = 0\<rparr>"

section \<open>Linked nodes on a heap\<close>

text \<open>
  The stack and the queue are built from \<open>Node\<close> structs linked by \<open>*Node\<close> pointers.
  The heap is the list of all nodes allocated so far, an address is an index into it,
  and a pointer is an optional address, \<open>None\<close> being \<open>nil\<close>. \<open>&Node{...}\<close> allocates at
  the end of the heap, so a new node never coincides with an old one. In Go a non-nil
  pointer always refers to an allocated node; the heap model allows dangling addresses,
  and the properties below say where they assume there are none.
\<close>

record Node =
  val :: int
  nxt :: "nat option"

type_synonym heap = "Node list"

subsection \<open>Stack\<close>

record Stack =
  stack_top :: "nat option"

definition push :: "int \<Rightarrow> heap \<times> Stack \<Rightarrow> heap \<times> Stack" where
  "push x st =
     (let (h, s) = st;
          newNode = length h;
          h = h @ [\<lparr>val = x, nxt = stack_top s\<rparr>]
      in (h, s\<lparr>stack_top := Some newNode\<rparr>))"

definition pop :: "heap \<times> Stack \<Rightarrow> int \<times> (heap \<times> Stack)" where
  "pop st =
     (let (h, s) = st in
      case stack_top s of
        None \<Rightarrow> (0, (h, s))
      | Some t \<Rightarrow> (val (h ! t), (h, s\<lparr>stack_top := nxt (h ! t)\<rparr>)))"

definition topNode :: "heap \<times> Stack \<Rightarrow> int" where
  "topNode st =
     (let (h, s) = st in
      case stack_top s of None \<Rightarrow> 0 | Some t \<Rightarrow> val (h ! t))"

definition isEmpty :: "heap \<times> Stack \<Rightarrow> bool" where
  "isEmpty st = (stack_top (snd st) = None)"

subsection \<open>Queue\<close>

record Queue =
  front :: "nat option"
  rear :: "nat option"

definition new_Queue :: Queue where
  "new_Queue = \<lparr>front = None, rear = None\<rparr>"

definition addElement :: "int \<Rightarrow> heap \<times> Queue \<Rightarrow> heap \<times> Queue" where
  "addElement v st =
     (let (h, q) = st;
          newNode = length h;
          h = h @ [\<lparr>val = v, nxt = None\<rparr>]
      in case rear q of
           None \<Rightarrow> (h, q\<lparr>front := Some newNode, rear := Some newNode\<rparr>)
         | Some r \<Rightarrow> (h[r := (h ! r)\<lparr>nxt := Some newNode\<rparr>], q\<lparr>rear := Some newNode\<rparr>))"

definition removeElement :: "heap \<times> Queue \<Rightarrow> int \<times> (heap \<times> Queue)" where
  "removeElement st =
     (let (h, q) = st in
      case front q of
        None \<Rightarrow> (0, (h, q))
      | Some f \<Rightarrow>
          (let v = val (h ! f);
               q = q\<lparr>front := nxt (h ! f)\<rparr>;
               q = (if front q = None then q\<lparr>rear := None\<rparr> else q)
           in (v, (h, q))))"

text \<open>
  The chain of nodes starting at a pointer: \<open>chain n h p\<close> follows \<open>nxt\<close> for at most
  \<open>n\<close> nodes and returns the addresses visited when it reaches \<open>nil\<close>, \<open>None\<close> when it
  meets a dangling address or does not reach \<open>nil\<close> within \<open>n\<close> nodes. A chain that
  ends visits no node twice, so \<open>length h\<close> nodes are enough.
\<close>

fun chain :: "nat \<Rightarrow> heap \<Rightarrow> nat option \<Rightarrow> nat list option" where
  "chain n h None = Some []"
| "chain 0 h (Some a) = None"
| "chain (Suc n) h (Some a) =
     (if a < length h then map_option ((#) a) (chain n h (nxt (h ! a))) else None)"

definition queue_chain :: "heap \<times> Queue \<Rightarrow> nat list option" where
  "queue_chain st = chain (length (fst st)) (fst st) (front (snd st))"

text \<open>The values held by the queue, front first.\<close>

definition queue_values :: "heap \<times> Queue \<Rightarrow> int list" where
  "queue_values st =
     (case queue_chain st of None \<Rightarrow> [] | Some as \<Rightarrow> map (\<lambda>a. val (fst st ! a)) as)"

text \<open>The invariant: the chain from \<open>front\<close> ends in \<open>nil\<close>, \<open>front\<close> is \<open>nil\<close> exactly
  when \<open>rear\<close> is, and \<open>rear\<close> is the last node of the chain.\<close>

definition queue_inv :: "heap \<times> Queue \<Rightarrow> bool" where
  "queue_inv st =
     (case queue_chain st of
        None \<Rightarrow> False
      | Some as \<Rightarrow>
          (front (snd st) = None \<longleftrightarrow> rear (snd st) = None)
          \<and> (as \<noteq> [] \<longrightarrow> rear (snd st) = Some (last as)))"

text \<open>Sequences of queue operations, with the values returned by the removals.\<close>

datatype queue_op = Add int | Remove

fun run_queue :: "queue_op list \<Rightarrow> heap \<times> Queue \<Rightarrow> int list \<times> (heap \<times> Queue)" where
  "run_queue [] st = ([], st)"
| "run_queue (Add v # ops) st = run_queue ops (addElement v st)"
| "run_queue (Remove # ops) st =
     (let (v, st) = removeElement st;
          (outs, st) = run_queue ops st
      in (v # outs, st))"

text \<open>The first-in first-out queue on lists that the linked queue is compared with:
  adding appends, removing takes the head and yields \<open>0\<close> on the empty list.\<close>

fun fifo :: "queue_op list \<Rightarrow> int list \<Rightarrow> int list \<times> int list" where
  "fifo [] xs = ([], xs)"
| "fifo (Add v # ops) xs = fifo ops (xs @ [v])"
| "fifo (Remove # ops) [] = (let (outs, ys) = fifo ops [] in (0 # outs, ys))"
| "fifo (Remove # ops) (x # xs) = (let (outs, ys) = fifo ops xs in (x # outs, ys))"

text \<open>The values held by the stack, top first, read along the chain from \<open>top\<close>.\<close>

definition stack_values :: "heap \<times> Stack \<Rightarrow> int list" where
  "stack_values st =
     (case chain (length (fst st)) (fst st) (stack_top (snd st)) of
        None \<Rightarrow> []
      | Some as \<Rightarrow> map (\<lambda>a. val (fst st ! a)) as)"

text \<open>The stack and the queue built by the two \<open>main\<close> functions.\<close>

definition main_stack :: "heap \<times> Stack" where
  "main_stack = push 7 (push 5 (push 3 ([], \<lparr>stack_top = None\<rparr>)))"

definition main_queue_ops :: "queue_op list" where
  "main_queue_ops = [Add 23, Add 1, Remove, Remove, Add 32]"

text \<open>
  For the proofs: \<open>path h p as\<close> says that following \<open>nxt\<close> from the pointer \<open>p\<close>
  visits exactly the allocated addresses \<open>as\<close> and then reaches \<open>nil\<close>; \<open>Qinv st as\<close>
  is the queue invariant with the chain named.
\<close>

fun path :: "heap \<Rightarrow> nat option \<Rightarrow> nat list \<Rightarrow> bool" where
  "path h p [] = (p = None)"
| "path h p (a # as) = (p = Some a \<and> a < length h \<and> path h (nxt (h ! a)) as)"

definition Qinv :: "heap \<times> Queue \<Rightarrow> nat list \<Rightarrow> bool" where
  "Qinv st as \<longleftrightarrow>
     path (fst st) (front (snd st)) as
     \<and> rear (snd st) = (if as = [] then None else Some (last as))"

text \<open>The stack of \<open>main\<close> after one \<open>pop\<close>: its top is no longer the newest node.\<close>

definition popped_stack :: "heap \<times> Stack" where
  "popped_stack = snd (pop main_stack)"

section \<open>Sorting\<close>

text \<open>
  A slice of Go \<open>int\<close>s is a list of integers; the elements are only compared and
  copied. Indices are Go \<open>int\<close>s and may fall outside the slice, where an access panics;
  a panic is the result \<open>None\<close>. Index arithmetic stays within one step of the bounds
  of the slice, far from the limits of a 64-bit \<open>int\<close>, and is done on \<^typ>\<open>int\<close> and
  \<^typ>\<open>nat\<close>.
\<close>

definition index_ok :: "int list \<Rightarrow> int \<Rightarrow> bool" where
  "index_ok arr i \<longleftrightarrow> 0 \<le> i \<and> i < int (length arr)"

text \<open>\<open>mixed[k] = v\<close> on a slice.\<close>

definition slice_set :: "int list \<Rightarrow> nat \<Rightarrow> int \<Rightarrow> int list option" where
  "slice_set a k v = (if k < length a then Some (a[k := v]) else None)"

subsection \<open>mergeSort and merge\<close>

text \<open>The first loop of \<open>merge\<close>: \<open>for i < len(first) && j < len(second)\<close>.\<close>

function merge_both ::
  "int list \<Rightarrow> int list \<Rightarrow> nat \<Rightarrow> nat \<Rightarrow> nat \<Rightarrow> int list \<Rightarrow> (nat \<times> nat \<times> nat \<times> int list) option" where
  "merge_both first second i j k mixed =
     (if i < length first \<and> j < length second
      then (if first ! i > second ! j
            then (case slice_set mixed k (second ! j) of
                    None \<Rightarrow> None
                  | Some mixed \<Rightarrow> merge_both first second i (j + 1) (k + 1) mixed)
            else (case slice_set mixed k (first ! i) of
                    None \<Rightarrow> None
                  | Some mixed \<Rightarrow> merge_both first second (i + 1) j (k + 1) mixed))
      else Some (i, j, k, mixed))"
  by pat_completeness auto
termination
  by (relation "measure (\<lambda>(first, second, i, j, k, mixed).
        (length first - i) + (length second - j))") auto

declare merge_both.simps [simp del]

text \<open>The second and the third loop have one shape: copy what is left of \<open>src\<close> from
  index \<open>i\<close> to \<open>mixed\<close> from index \<open>k\<close>.\<close>

function merge_rest :: "int list \<Rightarrow> nat \<Rightarrow> nat \<Rightarrow> int list \<Rightarrow> (nat \<times> int list) option" where
  "merge_rest src i k mixed =
     (if i < length src
      then (case slice_set mixed k (src ! i) of
              None \<Rightarrow> None
            | Some mixed \<Rightarrow> merge_rest src (i + 1) (k + 1) mixed)
      else Some (k, mixed))"
  by pat_completeness auto
termination
  by (relation "measure (\<lambda>(src, i, k, mixed). length src - i)") auto

declare merge_rest.simps [simp del]

definition merge :: "int list \<Rightarrow> int list \<Rightarrow> int list option" where
  "merge first second =
     (let mixed = replicate (length first + length second) 0 in
      case merge_both first second 0 0 0 mixed of
        None \<Rightarrow> None
      | Some (i, j, k, mixed) \<Rightarrow>
          (case merge_rest first i k mixed of
             None \<Rightarrow> None
           | Some (k, mixed) \<Rightarrow>
               (case merge_rest second j k mixed of
                  None \<Rightarrow> None
                | Some (k, mixed) \<Rightarrow> Some mixed)))"

text \<open>
  \<open>mergeSort\<close> recurses on \<open>arr[:mid]\<close> and \<open>arr[mid:]\<close> unless the length is exactly
  one. Nothing bounds the recursion in the definition itself: \<open>None\<close> also stands for
  a call that never returns.
\<close>

partial_function (option) mergeSort :: "int list \<Rightarrow> int list option" where
  "mergeSort arr =
     (if length arr = 1 then Some arr
      else
        let mid = length arr div 2 in
        Option.bind (mergeSort (take mid arr)) (\<lambda>left.
        Option.bind (mergeSort (drop mid arr)) (\<lambda>right.
        merge left right)))"

declare mergeSort.simps [code]

text \<open>
  For the proofs: the merge of two lists by structural recursion, taking from the second
  list only when its head is strictly smaller, and the two copying loops of \<open>merge\<close>
  applied to the result of the first loop.
\<close>

fun fmerge :: "int list \<Rightarrow> int list \<Rightarrow> int list" where
  "fmerge [] ys = ys"
| "fmerge xs [] = xs"
| "fmerge (x # xs) (y # ys) = (if x > y then y # fmerge (x # xs) ys else x # fmerge xs (y # ys))"

definition merge_finish ::
  "int list \<Rightarrow> int list \<Rightarrow> (nat \<times> nat \<times> nat \<times> int list) option \<Rightarrow> int list option" where
  "merge_finish first second r =
     (case r of
        None \<Rightarrow> None
      | Some (i, j, k, mixed) \<Rightarrow>
          (case merge_rest first i k mixed of
             None \<Rightarrow> None
           | Some (k, mixed) \<Rightarrow>
               (case merge_rest second j k mixed of
                  None \<Rightarrow> None
                | Some (k, mixed) \<Rightarrow> Some mixed)))"

subsection \<open>quickSort\<close>

text \<open>Go's integer division truncates towards zero.\<close>

definition go_div :: "int \<Rightarrow> int \<Rightarrow> int" where
  "go_div a b = (if (a < 0) = (b < 0) then \<bar>a\<bar> div \<bar>b\<bar> else - (\<bar>a\<bar> div \<bar>b\<bar>))"

text \<open>\<open>for arr[s] < piviot { s++ }\<close> and \<open>for arr[e] > piviot { e-- }\<close>.\<close>

function scan_up :: "int list \<Rightarrow> int \<Rightarrow> int \<Rightarrow> int option" where
  "scan_up arr piviot s =
     (if index_ok arr s
      then (if arr ! nat s < piviot then scan_up arr piviot (s + 1) else Some s)
      else None)"
  by pat_completeness auto
termination
  by (relation "measure (\<lambda>(arr, piviot, s). nat (int (length arr) - s))")
    (auto simp: index_ok_def)

declare scan_up.simps [simp del]

function scan_down :: "int list \<Rightarrow> int \<Rightarrow> int \<Rightarrow> int option" where
  "scan_down arr piviot e =
     (if index_ok arr e
      then (if arr ! nat e > piviot then scan_down arr piviot (e - 1) else Some e)
      else None)"
  by pat_completeness auto
termination
  by (relation "measure (\<lambda>(arr, piviot, e). nat (e + 1))")
    (auto simp: index_ok_def)

declare scan_down.simps [simp del]

text \<open>\<open>arr[e], arr[s] = arr[s], arr[e]\<close>, both indices in range.\<close>

definition swap :: "int list \<Rightarrow> int \<Rightarrow> int \<Rightarrow> int list" where
  "swap arr s e = arr[nat e := arr ! nat s, nat s := arr ! nat e]"

text \<open>
  The loop \<open>for s <= e\<close> of \<open>quickSort\<close>. When the two scans have crossed nothing is
  swapped and the loop condition, tested again, ends the loop.
\<close>

function qs_loop :: "int list \<Rightarrow> int \<Rightarrow> int \<Rightarrow> int \<Rightarrow> (int list \<times> int \<times> int) option" where
  "qs_loop arr piviot s e =
     (if s \<le> e
      then (case scan_up arr piviot s of
              None \<Rightarrow> None
            | Some s \<Rightarrow>
                (case scan_down arr piviot e of
                   None \<Rightarrow> None
                 | Some e \<Rightarrow>
                     if s \<le> e then qs_loop (swap arr s e) piviot (s + 1) (e - 1)
                     else qs_loop arr piviot s e))
      else Some (arr, s, e))"
  by pat_completeness auto
termination
proof (relation "measure (\<lambda>(arr, piviot, s, e). nat (e - s + 1))", goal_cases)
  case 1
  show ?case by simp
next
  case (2 arr piviot s e s' e')
  have up: "scan_up a p x = Some y \<Longrightarrow> x \<le> y" for a p x y
    by (induction a p x rule: scan_up.induct)
      (subst (asm) (2) scan_up.simps, auto split: if_splits)
  have down: "scan_down a p x = Some y \<Longrightarrow> y \<le> x" for a p x y
    by (induction a p x rule: scan_down.induct)
      (subst (asm) (2) scan_down.simps, auto split: if_splits)
  from 2 up [of arr piviot s s'] down [of arr piviot e e'] show ?case by simp
next
  case (3 arr piviot s e s' e')
  then show ?case by simp
qed

declare qs_loop.simps [simp del]

text \<open>
  \<open>quickSort(arr, low, high)\<close> works in place; the model returns the slice it leaves.
  The recursion is written as the code has it, with no bound of its own, so \<open>None\<close>
  stands for a panic as well as for a call that never returns.
\<close>

partial_function (option) quickSort :: "int list \<Rightarrow> int \<Rightarrow> int \<Rightarrow> int list option" where
  "quickSort arr low high =
     (if low \<ge> high then Some arr
      else
        let s = low;
            e = high;
            mid = go_div (low + high) 2
        in if index_ok arr mid
           then (let piviot = arr ! nat mid in
                 case qs_loop arr piviot s e of
                   None \<Rightarrow> None
                 | Some (arr, s, e) \<Rightarrow>
                     Option.bind (quickSort arr low e) (\<lambda>arr. quickSort arr s high))
           else None)"

declare quickSort.simps [code]

text \<open>
  For the proofs. \<open>part_inv arr p low high s e\<close> is the invariant of the partition loop
  on the range \<open>low..high\<close>: everything left of \<open>s\<close> is at most the pivot, everything
  right of \<open>e\<close> is at least the pivot, and while \<open>s \<le> e\<close> each scan has an element in
  range at which it stops. \<open>range_perm arr arr' low high\<close> says that \<open>arr'\<close> is \<open>arr\<close>
  with the elements at \<open>low..high\<close> rearranged: same length and elements, nothing changed
  outside the range, and whatever holds of all elements in the range still does.
\<close>

definition part_inv :: "int list \<Rightarrow> int \<Rightarrow> int \<Rightarrow> int \<Rightarrow> int \<Rightarrow> int \<Rightarrow> bool" where
  "part_inv arr p low high s e \<longleftrightarrow>
     0 \<le> low \<and> high < int (length arr) \<and> low \<le> s \<and> s \<le> high + 1 \<and> low - 1 \<le> e \<and> e \<le> high
     \<and> (\<forall>i. low \<le> i \<and> i < s \<longrightarrow> arr ! nat i \<le> p)
     \<and> (\<forall>i. e < i \<and> i \<le> high \<longrightarrow> p \<le> arr ! nat i)
     \<and> (s \<le> e \<longrightarrow> (\<exists>k. s \<le> k \<and> k \<le> high \<and> p \<le> arr ! nat k)
                   \<and> (\<exists>k. low \<le> k \<and> k \<le> e \<and> arr ! nat k \<le> p))"

definition range_perm :: "int list \<Rightarrow> int list \<Rightarrow> int \<Rightarrow> int \<Rightarrow> bool" where
  "range_perm arr arr' low high \<longleftrightarrow>
     length arr' = length arr \<and> mset arr' = mset arr
     \<and> (\<forall>n. int n < low \<or> high < int n \<longrightarrow> arr' ! n = arr ! n)
     \<and> (\<forall>P. (\<forall>i. low \<le> i \<and> i \<le> high \<longrightarrow> P (arr ! nat i))
            \<longrightarrow> (\<forall>i. low \<le> i \<and> i \<le> high \<longrightarrow> P (arr' ! nat i)))"

section \<open>WordCount (testing demo)\<close>

text \<open>
  Go strings are byte sequences and \<open>s[i]\<close> reads one byte, so a string is a
  \<^typ>\<open>char list\<close>. The counter is a Go \<open>int\<close>; it stays between \<open>-1\<close> and
  \<open>len(s)\<close>, so it is modelled as \<^typ>\<open>int\<close>.
\<close>

text \<open>The loop \<open>for i := 0; i < len(s); i++\<close> of \<open>WordCount\<close>, from index \<open>i\<close> with
  the counter \<open>cnt\<close> (the source's \<open>count\<close>).\<close>

function WordCount_loop :: "string \<Rightarrow> nat \<Rightarrow> int \<Rightarrow> int" where
  "WordCount_loop s i cnt =
     (if i < length s
      then WordCount_loop s (i + 1)
             (if s ! i = CHR '' '' \<and> i > 0 \<and> s ! (i - 1) \<noteq> CHR '' '' then cnt + 1 else cnt)
      else cnt)"
  by pat_completeness auto
termination
  by (relation "measure (\<lambda>(s, i, cnt). length s - i)") auto

definition WordCount :: "string \<Rightarrow> int" where
  "WordCount s =
     (if length s = 0 then 0
      else
        let cnt = WordCount_loop s 0 1;
            cnt = (if s ! 0 = CHR '' '' then cnt - 1 else cnt);
            cnt = (if s ! (length s - 1) = CHR '' '' then cnt - 1 else cnt)
        in cnt)"

text \<open>The specification's reading of a word count: the number of maximal runs of
  non-space characters. \<open>word_runs_from inside s\<close> scans \<open>s\<close>, \<open>inside\<close> telling
  whether the previous character belonged to a run.\<close>

fun word_runs_from :: "bool \<Rightarrow> string \<Rightarrow> int" where
  "word_runs_from inside [] = 0"
| "word_runs_from inside (c # cs) =
     (if c = CHR '' '' then word_runs_from False cs
      else (if inside then 0 else 1) + word_runs_from True cs)"

definition word_runs :: "string \<Rightarrow> int" where
  "word_runs s = word_runs_from False s"

text \<open>For the proofs: the number of places in \<open>s\<close> where a non-space character is
  followed by a space, which is what the loop of \<open>WordCount\<close> counts.\<close>

fun word_ends :: "string \<Rightarrow> int" where
  "word_ends (c # d # cs) =
     (if c \<noteq> CHR '' '' \<and> d = CHR '' '' then 1 else 0) + word_ends (d # cs)"
| "word_ends cs = 0"

section \<open>The worker pool\<close>

text \<open>
  \<open>WorkerPool\<close> runs five goroutines: the caller, three workers and the goroutine that
  waits for the workers and closes \<open>results\<close>. They share two buffered channels of
  capacity \<open>numJobs\<close> and a \<open>sync.WaitGroup\<close>, and every interaction between them is an
  operation on one of these. The model is the interleaving of their steps: a state
  records where each goroutine stands, the channel buffers and the counter, and
  \<open>fire a s\<close> is the next step of goroutine \<open>a\<close>, \<open>None\<close> when it is blocked or has
  ended. The print and the \<open>time.Sleep\<close> of a worker touch nothing shared and belong to
  the step that received the job. An operation that panics in Go (a send on a closed
  channel, closing a closed channel, a negative \<open>WaitGroup\<close> counter) sets \<open>panicked\<close>,
  after which nothing runs.
\<close>

definition numJobs :: int where "numJobs = 10"
definition numWorkers :: nat where "numWorkers = 3"

text \<open>Where the caller stands: \<open>wg.Add(1)\<close> and the \<open>go\<close> statement for worker \<open>w\<close>, the
  send of job \<open>j\<close>, \<open>close(jobs)\<close>, the \<open>go\<close> statement of the closing goroutine, the
  \<open>range results\<close> loop, and the return.\<close>

datatype main_pc = AddWorker nat | GoWorker nat | SendJob int | CloseJobs | GoCloser
  | Collecting | Returned

text \<open>Where a worker stands: not started, at \<open>range jobs\<close>, at \<open>results <- job * 2\<close>
  with the job it holds, returned from \<open>worker\<close> with the deferred \<open>wg.Done()\<close> still to
  run, and ended.\<close>

datatype worker_pc = NotStarted | Receiving | Sending int | Returning | Exited

datatype closer_pc = CloserNotStarted | Waiting | Closing | CloserDone

record pool =
  main :: main_pc
  workers :: "worker_pc list"
  closer :: closer_pc
  wg :: int
  jobs :: "int list"
  jobs_closed :: bool
  results :: "int list"
  results_closed :: bool
  printed :: "int list"
  processed :: "(nat \<times> int) list"
  panicked :: bool

definition pool_init :: pool where
  "pool_init = \<lparr>main = AddWorker 1, workers = replicate numWorkers NotStarted,
     closer = CloserNotStarted, wg = 0, jobs = [], jobs_closed = False,
     results = [], results_closed = False, printed = [], processed = [], panicked = False\<rparr>"

datatype actor = Main | Worker nat | Closer

text \<open>The caller. The two \<open>for\<close> loops test their condition in the step that would
  run the body.\<close>

definition fire_main :: "pool \<Rightarrow> pool option" where
  "fire_main s =
     (case main s of
        AddWorker w \<Rightarrow>
          if w \<le> numWorkers then Some (s\<lparr>wg := wg s + 1, main := GoWorker w\<rparr>)
          else Some (s\<lparr>main := SendJob 1\<rparr>)
      | GoWorker w \<Rightarrow>
          Some (s\<lparr>workers := (workers s)[w - 1 := Receiving], main := AddWorker (w + 1)\<rparr>)
      | SendJob j \<Rightarrow>
          if j \<le> numJobs
          then (if jobs_closed s then Some (s\<lparr>panicked := True\<rparr>)
                else if int (length (jobs s)) < numJobs
                then Some (s\<lparr>jobs := jobs s @ [j], main := SendJob (j + 1)\<rparr>)
                else None)
          else Some (s\<lparr>main := CloseJobs\<rparr>)
      | CloseJobs \<Rightarrow>
          if jobs_closed s then Some (s\<lparr>panicked := True\<rparr>)
          else Some (s\<lparr>jobs_closed := True, main := GoCloser\<rparr>)
      | GoCloser \<Rightarrow> Some (s\<lparr>closer := Waiting, main := Collecting\<rparr>)
      | Collecting \<Rightarrow>
          (case results s of
             r # rs \<Rightarrow> Some (s\<lparr>results := rs, printed := printed s @ [r]\<rparr>)
           | [] \<Rightarrow> if results_closed s then Some (s\<lparr>main := Returned\<rparr>) else None)
      | Returned \<Rightarrow> None)"

text \<open>Worker \<open>i\<close> (counted from \<open>0\<close>; its \<open>id\<close> is \<open>i + 1\<close>).\<close>

definition fire_worker :: "nat \<Rightarrow> pool \<Rightarrow> pool option" where
  "fire_worker i s =
     (if i < length (workers s) then
        (case workers s ! i of
           NotStarted \<Rightarrow> None
         | Receiving \<Rightarrow>
             (case jobs s of
                job # js \<Rightarrow>
                  Some (s\<lparr>jobs := js, processed := processed s @ [(i + 1, job)],
                          workers := (workers s)[i := Sending job]\<rparr>)
              | [] \<Rightarrow>
                  if jobs_closed s then Some (s\<lparr>workers := (workers s)[i := Returning]\<rparr>)
                  else None)
         | Sending job \<Rightarrow>
             if results_closed s then Some (s\<lparr>panicked := True\<rparr>)
             else if int (length (results s)) < numJobs
             then Some (s\<lparr>results := results s @ [job * 2],
                           workers := (workers s)[i := Receiving]\<rparr>)
             else None
         | Returning \<Rightarrow>
             if wg s - 1 < 0 then Some (s\<lparr>panicked := True\<rparr>)
             else Some (s\<lparr>wg := wg s - 1, workers := (workers s)[i := Exited]\<rparr>)
         | Exited \<Rightarrow> None)
      else None)"

text \<open>The goroutine \<open>wg.Wait(); close(results)\<close>.\<close>

definition fire_closer :: "pool \<Rightarrow> pool option" where
  "fire_closer s =
     (case closer s of
        CloserNotStarted \<Rightarrow> None
      | Waiting \<Rightarrow> if wg s = 0 then Some (s\<lparr>closer := Closing\<rparr>) else None
      | Closing \<Rightarrow>
          if results_closed s then Some (s\<lparr>panicked := True\<rparr>)
          else Some (s\<lparr>results_closed := True, closer := CloserDone\<rparr>)
      | CloserDone \<Rightarrow> None)"

definition fire :: "actor \<Rightarrow> pool \<Rightarrow> pool option" where
  "fire a s =
     (if panicked s then None
      else case a of Main \<Rightarrow> fire_main s | Worker i \<Rightarrow> fire_worker i s | Closer \<Rightarrow> fire_closer s)"

text \<open>A schedule names the goroutine that moves at each step; it is not a run when it
  names one that cannot move.\<close>

fun run_pool :: "actor list \<Rightarrow> pool \<Rightarrow> pool option" where
  "run_pool [] s = Some s"
| "run_pool (a # as) s = (case fire a s of None \<Rightarrow> None | Some s' \<Rightarrow> run_pool as s')"

text \<open>One schedule: the caller starts the workers, sends and closes; the first worker
  takes every job; the workers end; \<open>results\<close> is closed; the caller collects.\<close>

definition sample_schedule :: "actor list" where
  "sample_schedule =
     replicate 20 Main
     @ concat (replicate 10 [Worker 0, Worker 0])
     @ [Worker 0, Worker 0, Worker 1, Worker 1, Worker 2, Worker 2]
     @ [Closer, Closer]
     @ replicate 11 Main"

text \<open>
  For the proofs. Every step lowers \<open>pool_measure\<close>: a job weighs \<open>4\<close> in \<open>jobs\<close> and
  \<open>1\<close> in \<open>results\<close>, and each goroutine weighs the steps it has left.
\<close>

fun main_rank :: "main_pc \<Rightarrow> nat" where
  "main_rank (AddWorker w) = 60 + 2 * (numWorkers + 1 - w) + 1"
| "main_rank (GoWorker w) = 60 + 2 * (numWorkers + 1 - w)"
| "main_rank (SendJob j) = 4 + 5 * nat (numJobs + 1 - j)"
| "main_rank CloseJobs = 3"
| "main_rank GoCloser = 2"
| "main_rank Collecting = 1"
| "main_rank Returned = 0"

fun worker_rank :: "worker_pc \<Rightarrow> nat" where
  "worker_rank NotStarted = 3"
| "worker_rank Receiving = 2"
| "worker_rank (Sending job) = 4"
| "worker_rank Returning = 1"
| "worker_rank Exited = 0"

fun closer_rank :: "closer_pc \<Rightarrow> nat" where
  "closer_rank CloserNotStarted = 3"
| "closer_rank Waiting = 2"
| "closer_rank Closing = 1"
| "closer_rank CloserDone = 0"

definition pool_measure :: "pool \<Rightarrow> nat" where
  "pool_measure s =
     main_rank (main s) + sum_list (map worker_rank (workers s)) + closer_rank (closer s)
     + 4 * length (jobs s) + length (results s) + (if panicked s then 0 else 1)"

text \<open>What the invariant counts: whether a worker is counted by the \<open>WaitGroup\<close>, the
  result a worker is about to send, how many workers the caller has started, how many
  jobs it has sent, and whether it has added to the \<open>WaitGroup\<close> for a worker it has
  not started yet.\<close>

fun active :: "worker_pc \<Rightarrow> nat" where
  "active NotStarted = 0"
| "active Exited = 0"
| "active Receiving = 1"
| "active (Sending job) = 1"
| "active Returning = 1"

fun held :: "worker_pc \<Rightarrow> int multiset" where
  "held (Sending job) = {#job * 2#}"
| "held NotStarted = {#}"
| "held Receiving = {#}"
| "held Returning = {#}"
| "held Exited = {#}"

fun started :: "main_pc \<Rightarrow> nat" where
  "started (AddWorker w) = w - 1"
| "started (GoWorker w) = w - 1"
| "started (SendJob j) = numWorkers"
| "started CloseJobs = numWorkers"
| "started GoCloser = numWorkers"
| "started Collecting = numWorkers"
| "started Returned = numWorkers"

fun sent :: "main_pc \<Rightarrow> int" where
  "sent (AddWorker w) = 0"
| "sent (GoWorker w) = 0"
| "sent (SendJob j) = j - 1"
| "sent CloseJobs = numJobs"
| "sent GoCloser = numJobs"
| "sent Collecting = numJobs"
| "sent Returned = numJobs"

fun pending_add :: "main_pc \<Rightarrow> int" where
  "pending_add (GoWorker w) = 1"
| "pending_add (AddWorker w) = 0"
| "pending_add (SendJob j) = 0"
| "pending_add CloseJobs = 0"
| "pending_add GoCloser = 0"
| "pending_add Collecting = 0"
| "pending_add Returned = 0"

fun pc_in_range :: "main_pc \<Rightarrow> bool" where
  "pc_in_range (AddWorker w) = (1 \<le> w \<and> w \<le> numWorkers + 1)"
| "pc_in_range (GoWorker w) = (1 \<le> w \<and> w \<le> numWorkers)"
| "pc_in_range (SendJob j) = (1 \<le> j \<and> j \<le> numJobs + 1)"
| "pc_in_range CloseJobs = True"
| "pc_in_range GoCloser = True"
| "pc_in_range Collecting = True"
| "pc_in_range Returned = True"

definition pool_inv :: "pool \<Rightarrow> bool" where
  "pool_inv s \<longleftrightarrow>
     \<not> panicked s \<and> length (workers s) = numWorkers \<and> pc_in_range (main s)
     \<and> (\<forall>i<numWorkers. (workers s ! i = NotStarted) = (started (main s) \<le> i))
     \<and> wg s = int (sum_list (map active (workers s))) + pending_add (main s)
     \<and> (jobs_closed s \<longleftrightarrow> main s \<in> {GoCloser, Collecting, Returned})
     \<and> (closer s = CloserNotStarted \<longleftrightarrow> main s \<notin> {Collecting, Returned})
     \<and> (closer s \<in> {Closing, CloserDone} \<longrightarrow> (\<forall>i<numWorkers. workers s ! i = Exited))
     \<and> (results_closed s \<longleftrightarrow> closer s = CloserDone)
     \<and> (\<forall>i<numWorkers. workers s ! i \<in> {Returning, Exited} \<longrightarrow> jobs s = [] \<and> jobs_closed s)
     \<and> mset (map snd (processed s)) + mset (jobs s) = mset [1..sent (main s)]
     \<and> image_mset (\<lambda>job. job * 2) (mset (map snd (processed s)))
          = sum_list (map held (workers s)) + mset (results s) + mset (printed s)
     \<and> (\<forall>e\<in>set (processed s). 1 \<le> fst e \<and> fst e \<le> numWorkers)
     \<and> (main s = Returned \<longrightarrow> results s = [] \<and> results_closed s)"

text \<open>The state in which the sample schedule ends, and the state after its first twenty
  steps, those of the caller up to the start of the closing goroutine.\<close>

definition pool_done :: pool where
  "pool_done = \<lparr>main = Returned, workers = [Exited, Exited, Exited], closer = CloserDone,
     wg = 0, jobs = [], jobs_closed = True, results = [], results_closed = True,
     printed = [2, 4, 6, 8, 10, 12, 14, 16, 18, 20],
     processed = [(1, 1), (1, 2), (1, 3), (1, 4), (1, 5), (1, 6), (1, 7), (1, 8), (1, 9),
       (1, 10)],
     panicked = False\<rparr>"

definition pool_loaded :: pool where
  "pool_loaded = \<lparr>main = Collecting, workers = [Receiving, Receiving, Receiving],
     closer = Waiting, wg = 3, jobs = [1, 2, 3, 4, 5, 6, 7, 8, 9, 10], jobs_closed = True,
     results = [], results_closed = False, printed = [], processed = [],
     panicked = False\<rparr>"

section \<open>Verified properties\<close>

subsection \<open>The book service\<close>

text \<open>
  Claim C3 says that \<open>handleCreateBook\<close> stores every decoded book and never rejects one.
  It does reject: a decoded book with an empty title goes through the check
  \<open>book.Title == "" || book.Author == "" || book.Price <= 0\<close>, is answered 400, and the
  store stays as it was.
\<close>

theorem handleCreateBook_rejects_untitled:
  "status (fst (handleCreateBook (\<lambda>_. Some untitled_book) (\<lambda>_. Some ''{}'') 1000
                  NewRecorder post_books empty_store)) = Some StatusBadRequest
   \<and> snd (handleCreateBook (\<lambda>_. Some untitled_book) (\<lambda>_. Some ''{}'') 1000
            NewRecorder post_books empty_store) = empty_store"
  by (simp add: handleCreateBook_def untitled_book_def post_books_def http_Error_def
      NewRecorder_def Write_def WriteHeader_def Header_Set_def Header_Del_def panic_def Let_def)

text \<open>
  Claim C3, amended. For a POST whose body decodes to a book, on a response that has no
  status yet: a book with a non-empty title, a non-empty author and a price that is not
  \<open>\<le> 0\<close> is stored under the next identifier, stamped with the current time, and answered
  201 Created with the stored book as payload; any other decoded book is answered
  400 Bad Request and the store is unchanged.
\<close>

theorem handleCreateBook_validates:
  "Method r = ''POST'' \<and> decode (Body r) = Some book \<and> status w = None \<longrightarrow>
     (if Title book = [] \<or> Author book = [] \<or> float64_le_zero (Price book)
      then handleCreateBook decode marshal now w r store =
             (http_Error w ''Invalid book data: title, author and price are required''
                StatusBadRequest, store)
           \<and> status (fst (handleCreateBook decode marshal now w r store)) = Some StatusBadRequest
      else snd (handleCreateBook decode marshal now w r store) =
             store\<lparr>books := (books store)(nextID store \<mapsto>
                                book\<lparr>ID := nextID store, CreatedAt := now\<rparr>),
                   nextID := nextID store + 1\<rparr>
           \<and> fst (handleCreateBook decode marshal now w r store) =
               respondWithJSON_books marshal w StatusCreated
                 (book\<lparr>ID := nextID store, CreatedAt := now\<rparr>)
           \<and> status (fst (handleCreateBook decode marshal now w r store)) = Some StatusCreated)"
  by (simp add: handleCreateBook_def AddBook_def GetBook_def Let_def http_Error_def
      respondWithJSON_books_def Encoder_Encode_def Write_def WriteHeader_def Header_Set_def
      Header_Del_def panic_def split: option.splits)

theorem handleCreateBook_validates_witness:
  "Method post_books = ''POST'' \<and> status NewRecorder = None
   \<and> \<not> (Title titled_book = [] \<or> Author titled_book = [] \<or> float64_le_zero (Price titled_book))
   \<and> (Title untitled_book = [] \<or> Author untitled_book = []
        \<or> float64_le_zero (Price untitled_book))
   \<and> fst (handleCreateBook (\<lambda>_. Some titled_book) (\<lambda>_. Some ''{}'') 1000
             NewRecorder post_books empty_store)
       = \<lparr>header = [''Content-Type'' \<mapsto> ''application/json''], status = Some 201,
           body = ''{}'' @ [CHR 0x0A], aborted = False\<rparr>
   \<and> snd (handleCreateBook (\<lambda>_. Some titled_book) (\<lambda>_. Some ''{}'') 1000
             NewRecorder post_books empty_store)
       = \<lparr>books = [1 \<mapsto> titled_book\<lparr>ID := 1, CreatedAt := 1000\<rparr>], nextID = 2,
           idCounter = 0\<rparr>
   \<and> snd (handleCreateBook (\<lambda>_. Some untitled_book) (\<lambda>_. Some ''{}'') 1000
             NewRecorder post_books empty_store)
       = empty_store"
  using handleCreateBook_validates [of post_books "\<lambda>_. Some titled_book" titled_book
          NewRecorder "\<lambda>_. Some ''{}''" 1000 empty_store]
        handleCreateBook_validates [of post_books "\<lambda>_. Some untitled_book" untitled_book
          NewRecorder "\<lambda>_. Some ''{}''" 1000 empty_store]
  by (simp add: post_books_def titled_book_def untitled_book_def NewRecorder_def empty_store_def
      respondWithJSON_books_def Encoder_Encode_def Write_def WriteHeader_def Header_Set_def
      Header_Del_def panic_def Let_def)

text \<open>
  Claim C10. \<open>UpdateBook(id, b)\<close> on any store: when \<open>id\<close> is present it returns true,
  the entry under \<open>id\<close> afterwards has \<open>ID = id\<close>, the previous \<open>CreatedAt\<close> and the
  title, author and price of \<open>b\<close>, every other entry and the counters are unchanged;
  when \<open>id\<close> is absent it returns false and the store is unchanged.
\<close>

theorem UpdateBook_frame:
  "(\<forall>old. books bs i = Some old \<longrightarrow>
      UpdateBook bs i b =
        (bs\<lparr>books := (books bs)(i \<mapsto> b\<lparr>ID := i, CreatedAt := CreatedAt old\<rparr>)\<rparr>, True)
      \<and> (\<exists>e. books (fst (UpdateBook bs i b)) i = Some e
             \<and> ID e = i \<and> CreatedAt e = CreatedAt old
             \<and> Title e = Title b \<and> Author e = Author b \<and> Price e = Price b)
      \<and> (\<forall>j. j \<noteq> i \<longrightarrow> books (fst (UpdateBook bs i b)) j = books bs j)
      \<and> nextID (fst (UpdateBook bs i b)) = nextID bs
      \<and> idCounter (fst (UpdateBook bs i b)) = idCounter bs)
   \<and> (books bs i = None \<longrightarrow> UpdateBook bs i b = (bs, False))"
  by (simp add: UpdateBook_def)

theorem UpdateBook_frame_witness:
  "books sample_store 1 \<noteq> None \<and> books sample_store 2 = None
   \<and> UpdateBook sample_store 1 sample_update =
       (sample_store\<lparr>books := [1 \<mapsto> \<lparr>ID = 1, Title = ''Concurrency in Go'',
            Author = ''Katherine Cox-Buday'', Price = Finite 34.99, CreatedAt = 1000\<rparr>]\<rparr>, True)
   \<and> UpdateBook sample_store 2 sample_update = (sample_store, False)"
  using UpdateBook_frame [of sample_store 1 sample_update]
        UpdateBook_frame [of sample_store 2 sample_update]
  by (simp add: sample_store_def sample_update_def)

subsection \<open>The two respondWithJSON helpers\<close>

text \<open>
  Claim C4 says the helper of the HTTP-testing file and the helper of the book service
  write byte-identical bodies for every serialisable payload. For the payload \<open>true\<close> the
  first writes \<open>true\<close> and the second, which goes through \<open>Encoder.Encode\<close>, writes
  \<open>true\<close> and a newline.
\<close>

theorem respondWithJSON_bodies_differ:
  "body (respondWithJSON_testing marshal_bool NewRecorder 200 True) = ''true''
   \<and> body (respondWithJSON_books marshal_bool NewRecorder 200 True) = ''true'' @ [CHR 0x0A]
   \<and> body (respondWithJSON_testing marshal_bool NewRecorder 200 True)
       \<noteq> body (respondWithJSON_books marshal_bool NewRecorder 200 True)"
  by (simp add: respondWithJSON_testing_def respondWithJSON_books_def Encoder_Encode_def
      marshal_bool_def NewRecorder_def Write_def WriteHeader_def Header_Set_def Header_Del_def panic_def Let_def)

text \<open>On a writer without a status, a status code outside \<open>100..999\<close> makes both
  helpers panic in \<open>WriteHeader\<close>: no status and no body are written.\<close>

lemma respondWithJSON_invalid_code:
  "marshal p = Some bs \<Longrightarrow> status w = None \<Longrightarrow> c < 100 \<or> c > 999 \<Longrightarrow>
     aborted (respondWithJSON_testing marshal w c p)
   \<and> aborted (respondWithJSON_books marshal w c p)
   \<and> status (respondWithJSON_testing marshal w c p) = None
   \<and> status (respondWithJSON_books marshal w c p) = None
   \<and> body (respondWithJSON_testing marshal w c p) = body w
   \<and> body (respondWithJSON_books marshal w c p) = body w"
  by (simp add: respondWithJSON_testing_def respondWithJSON_books_def WriteHeader_def
      Header_Set_def panic_def Let_def)

text \<open>
  Claim C4, amended. For every status code from 100 to 999 and every payload that
  marshals, neither helper panics and the two leave the same status and the same
  headers, with Content-Type \<open>application/json\<close>; the body written by the book service's
  helper is the body written by the HTTP-testing helper followed by one newline.
\<close>

theorem respondWithJSON_newline:
  "marshal p = Some bs \<Longrightarrow> 100 \<le> c \<Longrightarrow> c \<le> 999 \<Longrightarrow>
     status (respondWithJSON_books marshal w c p) = status (respondWithJSON_testing marshal w c p)
   \<and> header (respondWithJSON_books marshal w c p) = header (respondWithJSON_testing marshal w c p)
   \<and> header (respondWithJSON_books marshal w c p) ''Content-Type'' = Some ''application/json''
   \<and> aborted (respondWithJSON_books marshal w c p) = aborted w
   \<and> aborted (respondWithJSON_testing marshal w c p) = aborted w
   \<and> body (respondWithJSON_testing marshal w c p) = body w @ bs
   \<and> body (respondWithJSON_books marshal w c p)
       = body (respondWithJSON_testing marshal w c p) @ [CHR 0x0A]"
  by (simp add: respondWithJSON_testing_def respondWithJSON_books_def Encoder_Encode_def
      Write_def WriteHeader_def Header_Set_def panic_def Let_def split: option.splits)

theorem respondWithJSON_newline_witness:
  "marshal_bool False = Some ''false'' \<and> (100::int) \<le> 201 \<and> (201::int) \<le> 999
   \<and> status (respondWithJSON_books marshal_bool NewRecorder 201 False) = Some 201
   \<and> status (respondWithJSON_testing marshal_bool NewRecorder 201 False) = Some 201
   \<and> body (respondWithJSON_testing marshal_bool NewRecorder 201 False) = ''false''
   \<and> body (respondWithJSON_books marshal_bool NewRecorder 201 False)
       = body (respondWithJSON_testing marshal_bool NewRecorder 201 False) @ [CHR 0x0A]"
proof -
  have m: "marshal_bool False = Some ''false''"
    by (simp add: marshal_bool_def)
  show ?thesis
    using m respondWithJSON_newline [of marshal_bool False "''false''" 201 NewRecorder]
    by (simp add: respondWithJSON_testing_def NewRecorder_def Write_def WriteHeader_def
        Header_Set_def panic_def Let_def)
qed

subsection \<open>The rate-limiting middleware\<close>

text \<open>Incrementing a Go \<open>int\<close> below the largest value does not wrap.\<close>

lemma sint_succ_no_overflow:
  fixes c :: go_int
  assumes "sint c < 2 ^ 63 - 1"
  shows "sint (c + 1) = sint c + 1"
  using assms sint_ge [of c]
  by (simp add: sint_word_add signed_take_bit_int_eq_self)

text \<open>
  Claim C1. One request through the handler of \<open>RateLimitMiddleware(n)\<close>, from any state
  of the map and the reset time. When no more than a minute has elapsed since the last
  reset and the client's address already has \<open>n\<close> or more requests counted (the count
  being below the largest \<open>int\<close>, so that the increment does not wrap), the wrapped
  handler is not called: its state is untouched and the response is exactly
  \<open>http.Error(w, "Rate limit exceeded", 429)\<close>, status 429 with that message. The map is
  only ever changed in two ways: the client's count is incremented and nothing else
  changes, or, when both clock checks find more than a minute elapsed, the whole map is
  replaced by a fresh one, in which this request is then counted, and the reset time is
  set.
\<close>

theorem rate_limited_step:
  fixes rl :: limiter and n :: go_int
  shows
  "(let ip = RemoteAddr r;
        due = (Since (lastResetTime rl) t1 > Minute \<and> Since (lastResetTime rl) t2 > Minute);
        res = rate_limited n next t1 t2 t3 (rl, h) w r
    in
     (\<not> Since (lastResetTime rl) t1 > Minute \<and> sint n \<le> sint (counted rl ip)
        \<and> sint (counted rl ip) < 2 ^ 63 - 1 \<longrightarrow>
        snd (fst res) = h \<and> snd res = http_Error w ''Rate limit exceeded'' StatusTooManyRequests
        \<and> (status w = None \<longrightarrow> status (snd res) = Some 429
              \<and> body (snd res) = body w @ ''Rate limit exceeded'' @ [CHR 0x0A]))
     \<and> (\<not> due \<longrightarrow>
          fst (fst res) = rl\<lparr>requestCounts := (requestCounts rl)(ip \<mapsto> counted rl ip + 1)\<rparr>)
     \<and> (due \<longrightarrow> fst (fst res) = \<lparr>requestCounts = [ip \<mapsto> 1], lastResetTime = t3\<rparr>))"
proof -
  have a: "sint (counted rl ip + 1) > sint n"
    if "sint n \<le> sint (counted rl ip)" "sint (counted rl ip) < 2 ^ 63 - 1" for ip
    using that sint_succ_no_overflow [of "counted rl ip"] by simp
  show ?thesis
    using a
    by (auto simp: rate_limited_def reset_if_due_def counted_def Let_def
        http_Error_def Write_def WriteHeader_def Header_Set_def Header_Del_def panic_def
        split: prod.splits)
qed

theorem rate_limited_step_witness:
  "\<not> Since (lastResetTime busy_limiter) 30000000000 > Minute
   \<and> sint (2 :: go_int) \<le> sint (counted busy_limiter (RemoteAddr post_books))
   \<and> sint (counted busy_limiter (RemoteAddr post_books)) < 2 ^ 63 - 1
   \<and> status NewRecorder = None
   \<and> Since (lastResetTime busy_limiter) 61000000000 > Minute
   \<and> Since (lastResetTime busy_limiter) 61000000001 > Minute
   \<and> rate_limited 2 counting_handler 30000000000 30000000001 30000000002
        (busy_limiter, 0) NewRecorder post_books
       = ((\<lparr>requestCounts = [''10.0.0.2:4000'' \<mapsto> 1, ''10.0.0.1:4000'' \<mapsto> 3],
            lastResetTime = 0\<rparr>, 0),
          \<lparr>header = [''Content-Type'' \<mapsto> ''text/plain; charset=utf-8'',
                      ''X-Content-Type-Options'' \<mapsto> ''nosniff''],
           status = Some 429, body = ''Rate limit exceeded'' @ [CHR 0x0A],
           aborted = False\<rparr>)
   \<and> fst (fst (rate_limited 2 counting_handler 61000000000 61000000001 61000000002
        (busy_limiter, 0) NewRecorder post_books))
       = \<lparr>requestCounts = [''10.0.0.1:4000'' \<mapsto> 1], lastResetTime = 61000000002\<rparr>"
  using rate_limited_step [of post_books busy_limiter 30000000000 30000000001 2 counting_handler
          30000000002 0 NewRecorder]
        rate_limited_step [of post_books busy_limiter 61000000000 61000000001 2 counting_handler
          61000000002 0 NewRecorder]
  by (simp add: Let_def busy_limiter_def post_books_def NewRecorder_def counted_def Since_def
      Minute_def http_Error_def Write_def WriteHeader_def Header_Set_def Header_Del_def
      panic_def prod_eq_iff)

subsection \<open>Chains of nodes\<close>

lemma chain_path: "chain n h p = Some as \<Longrightarrow> path h p as \<and> length as \<le> n"
  by (induction n h p arbitrary: as rule: chain.induct) (auto split: if_splits)

lemma path_chain: "path h p as \<Longrightarrow> length as \<le> n \<Longrightarrow> chain n h p = Some as"
proof (induction as arbitrary: p n)
  case Nil
  then show ?case by simp
next
  case (Cons a as)
  then obtain m where n: "n = Suc m" by (cases n) auto
  with Cons show ?case by simp
qed

lemma path_functional: "path h p as \<Longrightarrow> path h p bs \<Longrightarrow> as = bs"
proof (induction as arbitrary: p bs)
  case Nil
  then show ?case by (cases bs) auto
next
  case (Cons a as)
  then show ?case by (cases bs) auto
qed

lemma path_suffix: "path h p (xs @ a # ys) \<Longrightarrow> path h (Some a) (a # ys)"
  by (induction xs arbitrary: p) auto

lemma path_bound: "path h p as \<Longrightarrow> a \<in> set as \<Longrightarrow> a < length h"
  by (induction as arbitrary: p) auto

lemma path_distinct: "path h p as \<Longrightarrow> distinct as"
proof (induction as arbitrary: p)
  case Nil
  then show ?case by simp
next
  case (Cons a as)
  have tl: "path h (nxt (h ! a)) as" using Cons.prems by simp
  have "a \<notin> set as"
  proof
    assume "a \<in> set as"
    then obtain xs ys where as: "as = xs @ a # ys" by (auto dest: split_list)
    with tl have "path h (Some a) (a # ys)" by (auto dest: path_suffix)
    then have "path h (nxt (h ! a)) ys" by simp
    with tl have "as = ys" by (rule path_functional)
    with as show False by simp
  qed
  with Cons.IH [OF tl] show ?case by simp
qed

lemma path_length: assumes "path h p as" shows "length as \<le> length h"
proof -
  have "set as \<subseteq> {..<length h}" using assms by (auto dest: path_bound)
  then have "card (set as) \<le> card {..<length h}" by (intro card_mono) auto
  with path_distinct [OF assms] show ?thesis by (simp add: distinct_card)
qed

lemma chain_iff_path: "chain (length h) h p = Some as \<longleftrightarrow> path h p as"
  using path_chain [OF _ path_length, of h p as] chain_path [of "length h" h p as] by blast

lemma queue_chain_path: "queue_chain (h, q) = Some as \<longleftrightarrow> path h (front q) as"
  unfolding queue_chain_def
  by (auto dest: chain_path intro: path_chain path_length)

lemma path_grow: "path h p as \<Longrightarrow> path (h @ [x]) p as"
  by (induction as arbitrary: p) (auto simp: nth_append)

lemma path_snoc:
  "path h p as \<Longrightarrow> as \<noteq> [] \<Longrightarrow> n < length h \<Longrightarrow> n \<notin> set as \<Longrightarrow> nxt (h ! n) = None \<Longrightarrow>
   path (h[last as := (h ! last as)\<lparr>nxt := Some n\<rparr>]) p (as @ [n])"
proof (induction as arbitrary: p)
  case Nil
  then show ?case by simp
next
  case (Cons a as)
  show ?case
  proof (cases as)
    case Nil
    with Cons.prems show ?thesis by auto
  next
    case (Cons b bs)
    have d: "distinct (a # as)" using Cons.prems(1) by (rule path_distinct)
    then have ne: "last as \<noteq> a" using Cons by auto
    have "path (h[last as := (h ! last as)\<lparr>nxt := Some n\<rparr>]) (nxt (h ! a)) (as @ [n])"
      using Cons.prems Cons by (intro Cons.IH) auto
    with ne Cons.prems Cons show ?thesis by auto
  qed
qed


subsection \<open>The linked queue\<close>

lemma queue_inv_Qinv: "queue_inv st \<longleftrightarrow> (\<exists>as. Qinv st as)"
proof (cases st)
  case (Pair h q)
  show ?thesis
  proof
    assume "queue_inv st"
    then obtain as where c: "queue_chain (h, q) = Some as"
      and i: "front q = None \<longleftrightarrow> rear q = None" and l: "as \<noteq> [] \<longrightarrow> rear q = Some (last as)"
      using Pair by (auto simp: queue_inv_def split: option.splits)
    from c have p: "path h (front q) as" by (simp add: queue_chain_path)
    then have "as = [] \<longrightarrow> front q = None" by auto
    with p i l have "Qinv (h, q) as" by (auto simp: Qinv_def)
    with Pair show "\<exists>as. Qinv st as" by blast
  next
    assume "\<exists>as. Qinv st as"
    then obtain as where p: "path h (front q) as"
      and r: "rear q = (if as = [] then None else Some (last as))"
      using Pair by (auto simp: Qinv_def)
    from p have c: "queue_chain (h, q) = Some as" by (simp add: queue_chain_path)
    have "front q = None \<longleftrightarrow> as = []" using p by (cases as) auto
    with c r Pair show "queue_inv st" by (auto simp: queue_inv_def)
  qed
qed

lemma Qinv_values: "Qinv st as \<Longrightarrow> queue_values st = map (\<lambda>a. val (fst st ! a)) as"
  using queue_chain_path [of "fst st" "snd st" as] by (simp add: Qinv_def queue_values_def)

lemma Qinv_new: "Qinv (h, new_Queue) []"
  by (simp add: Qinv_def new_Queue_def)

lemma Qinv_addElement:
  assumes "Qinv (h, q) as"
  shows "Qinv (addElement v (h, q)) (as @ [length h])
         \<and> queue_values (addElement v (h, q)) = queue_values (h, q) @ [v]"
proof (cases "as = []")
  case True
  with assms have r: "rear q = None" by (simp add: Qinv_def)
  have i: "Qinv (addElement v (h, q)) (as @ [length h])"
    using True r by (simp add: Qinv_def addElement_def Let_def)
  from Qinv_values [OF i]
  show ?thesis using i True Qinv_values [OF assms] r by (simp add: addElement_def Let_def)
next
  case False
  let ?h1 = "h @ [\<lparr>val = v, nxt = None\<rparr>]"
  let ?h2 = "?h1[last as := (?h1 ! last as)\<lparr>nxt := Some (length h)\<rparr>]"
  from assms False have r: "rear q = Some (last as)" and p: "path h (front q) as"
    by (simp_all add: Qinv_def)
  have b: "\<forall>a\<in>set as. a < length h" using p by (auto dest: path_bound)
  then have fresh: "length h \<notin> set as" by auto
  have "path ?h1 (front q) as" using p by (rule path_grow)
  then have p2: "path ?h2 (front q) (as @ [length h])"
    using False fresh by (intro path_snoc) auto
  have st: "addElement v (h, q) = (?h2, q\<lparr>rear := Some (length h)\<rparr>)"
    using r by (simp add: addElement_def Let_def)
  have i: "Qinv (addElement v (h, q)) (as @ [length h])"
    using p2 by (simp add: st Qinv_def)
  have vals: "val (?h2 ! a) = val (h ! a)" if "a \<in> set as" for a
    using that b by (cases "a = last as") (auto simp: nth_append)
  have "last as \<in> set as" using False by simp
  with fresh have "last as \<noteq> length h" by metis
  then have new: "val (?h2 ! length h) = v"
    by simp
  have "queue_values (addElement v (h, q)) = map (\<lambda>a. val (?h2 ! a)) (as @ [length h])"
    using Qinv_values [OF i] by (simp add: st)
  also have "\<dots> = map (\<lambda>a. val (h ! a)) as @ [v]"
    using vals new by simp
  finally show ?thesis using i Qinv_values [OF assms] by simp
qed

lemma Qinv_removeElement_empty:
  assumes "Qinv (h, q) []"
  shows "removeElement (h, q) = (0, (h, q))"
  using assms by (simp add: Qinv_def removeElement_def)

lemma Qinv_removeElement_nonempty:
  assumes "Qinv (h, q) (a # as)"
  shows "fst (removeElement (h, q)) = val (h ! a)
         \<and> Qinv (snd (removeElement (h, q))) as
         \<and> fst (snd (removeElement (h, q))) = h"
proof -
  from assms have f: "front q = Some a" and p: "path h (nxt (h ! a)) as"
    and r: "rear q = Some (last (a # as))"
    by (simp_all add: Qinv_def)
  have e: "nxt (h ! a) = None \<longleftrightarrow> as = []" using p by (cases as) auto
  show ?thesis using f p r e by (auto simp: removeElement_def Qinv_def Let_def)
qed

lemma run_queue_fifo:
  "Qinv st as \<Longrightarrow> run_queue ops st = (outs, st') \<Longrightarrow>
     (\<exists>bs. Qinv st' bs) \<and> fifo ops (queue_values st) = (outs, queue_values st')"
proof (induction ops st arbitrary: as outs st' rule: run_queue.induct)
  case (1 st)
  then show ?case by auto
next
  case (2 v ops st)
  obtain h q where st: "st = (h, q)" by (cases st)
  from Qinv_addElement [of h q as v] "2.prems" st
  have i: "Qinv (addElement v st) (as @ [length h])"
    and v: "queue_values (addElement v st) = queue_values st @ [v]" by auto
  from "2.IH" [OF i] "2.prems"(2) v show ?case by simp
next
  case (3 ops st)
  obtain h q where st: "st = (h, q)" by (cases st)
  obtain x st1 where r: "removeElement st = (x, st1)" by (cases "removeElement st")
  obtain outs1 st2 where rq: "run_queue ops st1 = (outs1, st2)" by (cases "run_queue ops st1")
  from "3.prems"(2) r rq have o: "outs = x # outs1" "st' = st2" by auto
  show ?case
  proof (cases as)
    case Nil
    with "3.prems"(1) st have e: "removeElement st = (0, st)"
      by (simp add: Qinv_removeElement_empty)
    with r have x: "x = 0" "st1 = st" by auto
    have v: "queue_values st = []" using Qinv_values [of st "[]"] "3.prems"(1) Nil by simp
    from "3.IH" [OF r [symmetric] refl, of as outs1 st2] "3.prems"(1) x rq
    have "(\<exists>bs. Qinv st2 bs) \<and> fifo ops (queue_values st) = (outs1, queue_values st2)"
      by simp
    with o x v show ?thesis by simp
  next
    case (Cons a as')
    from Qinv_removeElement_nonempty [of h q a as'] "3.prems"(1) st Cons r
    have x: "x = val (h ! a)" and i: "Qinv st1 as'" and h1: "fst st1 = h" by auto
    have v: "queue_values st = val (h ! a) # map (\<lambda>a. val (h ! a)) as'"
      using Qinv_values [of st "a # as'"] "3.prems"(1) st Cons by simp
    have v1: "queue_values st1 = map (\<lambda>a. val (h ! a)) as'"
      using Qinv_values [OF i] h1 by simp
    from "3.IH" [OF r [symmetric] refl, of as' outs1 st2] i rq
    have "(\<exists>bs. Qinv st2 bs) \<and> fifo ops (queue_values st1) = (outs1, queue_values st2)"
      by simp
    with o x v v1 show ?thesis by simp
  qed
qed


text \<open>
  Claim C7. Run any sequence of \<open>addElement\<close> and \<open>removeElement\<close> calls from the
  empty queue, on any heap. The queue reached satisfies the invariant: the chain from
  \<open>front\<close> ends in \<open>nil\<close>, \<open>front\<close> is \<open>nil\<close> exactly when \<open>rear\<close> is, and
  \<open>rear\<close> is the last node of the chain. The values returned and the values left are
  those of the first-in first-out queue on lists. A further \<open>removeElement\<close> returns the
  oldest value and leaves the rest, sets \<open>front\<close> and \<open>rear\<close> to \<open>nil\<close> when it removes
  the last element, and on the empty queue returns \<open>0\<close> and changes nothing.
\<close>

theorem Queue_fifo_invariant:
  "run_queue ops (h0, new_Queue) = (outs, st) \<Longrightarrow>
     queue_inv st
     \<and> fifo ops [] = (outs, queue_values st)
     \<and> (front (snd st) = None \<longleftrightarrow> queue_values st = [])
     \<and> (queue_values st = [] \<longrightarrow> removeElement st = (0, st))
     \<and> (\<forall>x xs. queue_values st = x # xs \<longrightarrow>
           fst (removeElement st) = x
           \<and> queue_values (snd (removeElement st)) = xs
           \<and> queue_inv (snd (removeElement st))
           \<and> (xs = [] \<longrightarrow> front (snd (snd (removeElement st))) = None
                          \<and> rear (snd (snd (removeElement st))) = None))"
proof -
  assume run: "run_queue ops (h0, new_Queue) = (outs, st)"
  have v0: "queue_values (h0, new_Queue) = []"
    using Qinv_values [OF Qinv_new [of h0]] by simp
  from run_queue_fifo [OF Qinv_new run] v0
  obtain bs where i: "Qinv st bs" and f: "fifo ops [] = (outs, queue_values st)" by auto
  obtain h q where st: "st = (h, q)" by (cases st)
  have v: "queue_values st = map (\<lambda>a. val (h ! a)) bs" using Qinv_values [OF i] st by simp
  have inv: "queue_inv st" using i queue_inv_Qinv by blast
  have fr: "front (snd st) = None \<longleftrightarrow> queue_values st = []"
    using i v by (cases bs) (auto simp: Qinv_def)
  have em: "removeElement st = (0, st)" if "queue_values st = []"
    using that v i st by (simp add: Qinv_removeElement_empty)
  have ne: "fst (removeElement st) = x
           \<and> queue_values (snd (removeElement st)) = xs
           \<and> queue_inv (snd (removeElement st))
           \<and> (xs = [] \<longrightarrow> front (snd (snd (removeElement st))) = None
                          \<and> rear (snd (snd (removeElement st))) = None)"
    if "queue_values st = x # xs" for x xs
  proof -
    from that v obtain a as where bs: "bs = a # as" and x: "x = val (h ! a)"
      and xs: "xs = map (\<lambda>a. val (h ! a)) as" by (cases bs) auto
    from Qinv_removeElement_nonempty [of h q a as] i st bs
    have r: "fst (removeElement st) = val (h ! a)" and j: "Qinv (snd (removeElement st)) as"
      and hh: "fst (snd (removeElement st)) = h" by auto
    have "queue_values (snd (removeElement st)) = xs"
      using Qinv_values [OF j] hh xs by simp
    moreover have "queue_inv (snd (removeElement st))" using j queue_inv_Qinv by blast
    moreover have "front (snd (snd (removeElement st))) = None
                   \<and> rear (snd (snd (removeElement st))) = None" if "xs = []"
      using that xs j by (simp add: Qinv_def)
    ultimately show ?thesis using r x by simp
  qed
  from inv f fr em ne show ?thesis by blast
qed


theorem Queue_fifo_invariant_witness:
  "run_queue main_queue_ops ([], new_Queue) =
     ([23, 1], ([\<lparr>val = 23, nxt = Some 1\<rparr>, \<lparr>val = 1, nxt = None\<rparr>, \<lparr>val = 32, nxt = None\<rparr>],
               \<lparr>front = Some 2, rear = Some 2\<rparr>))
   \<and> queue_inv ([\<lparr>val = 23, nxt = Some 1\<rparr>, \<lparr>val = 1, nxt = None\<rparr>, \<lparr>val = 32, nxt = None\<rparr>],
               \<lparr>front = Some 2, rear = Some 2\<rparr>)
   \<and> fifo main_queue_ops [] = ([23, 1], [32])
   \<and> queue_values ([\<lparr>val = 23, nxt = Some 1\<rparr>, \<lparr>val = 1, nxt = None\<rparr>, \<lparr>val = 32, nxt = None\<rparr>],
               \<lparr>front = Some 2, rear = Some 2\<rparr>) = [32]
   \<and> run_queue [Add 23, Remove] ([], new_Queue)
       = ([23], ([\<lparr>val = 23, nxt = None\<rparr>], \<lparr>front = None, rear = None\<rparr>))
   \<and> queue_values ([\<lparr>val = 23, nxt = None\<rparr>], \<lparr>front = None, rear = None\<rparr>) = []
   \<and> removeElement ([\<lparr>val = 23, nxt = None\<rparr>], \<lparr>front = None, rear = None\<rparr>)
       = (0, ([\<lparr>val = 23, nxt = None\<rparr>], \<lparr>front = None, rear = None\<rparr>))"
proof -
  have r1: "run_queue main_queue_ops ([], new_Queue) =
     ([23, 1], ([\<lparr>val = 23, nxt = Some 1\<rparr>, \<lparr>val = 1, nxt = None\<rparr>, \<lparr>val = 32, nxt = None\<rparr>],
               \<lparr>front = Some 2, rear = Some 2\<rparr>))"
    by (simp add: main_queue_ops_def new_Queue_def addElement_def removeElement_def Let_def)
  have r2: "run_queue [Add 23, Remove] ([], new_Queue)
       = ([23], ([\<lparr>val = 23, nxt = None\<rparr>], \<lparr>front = None, rear = None\<rparr>))"
    by (simp add: new_Queue_def addElement_def removeElement_def Let_def)
  have v1: "queue_values ([\<lparr>val = 23, nxt = Some 1\<rparr>, \<lparr>val = 1, nxt = None\<rparr>,
                \<lparr>val = 32, nxt = None\<rparr>], \<lparr>front = Some 2, rear = Some 2\<rparr>) = [32]"
    by (simp add: queue_values_def queue_chain_def numeral_3_eq_3 numeral_2_eq_2)
  have v2: "queue_values ([\<lparr>val = 23, nxt = None\<rparr>], \<lparr>front = None, rear = None\<rparr>) = []"
    by (simp add: queue_values_def queue_chain_def)
  show ?thesis
    using r1 r2 v1 v2 Queue_fifo_invariant [OF r1] Queue_fifo_invariant [OF r2]
    by simp
qed

subsection \<open>The linked stack\<close>

text \<open>
  On a stack whose chain from \<open>top\<close> is well formed, \<open>pop()\<close> leaves every node as it
  was and moves \<open>top\<close> to the rest of the chain; \<open>pop()\<close> and \<open>topNode()\<close> return the first
  of the values held, \<open>pop()\<close> leaving the others, and \<open>0\<close> when no value is held.
\<close>

lemma pop_well_formed:
  assumes ch: "chain (length h) h (stack_top s) = Some as"
  shows "fst (snd (pop (h, s))) = h
     \<and> chain (length h) h (stack_top (snd (snd (pop (h, s))))) = Some (tl as)
     \<and> isEmpty (h, s) = (stack_values (h, s) = [])
     \<and> (\<forall>v vs. stack_values (h, s) = v # vs \<longrightarrow>
           topNode (h, s) = v \<and> fst (pop (h, s)) = v \<and> stack_values (snd (pop (h, s))) = vs)
     \<and> (stack_values (h, s) = [] \<longrightarrow> topNode (h, s) = 0 \<and> pop (h, s) = (0, (h, s)))"
proof -
  from ch have p: "path h (stack_top s) as" by (simp add: chain_iff_path)
  have v0: "stack_values (h, s) = map (\<lambda>a. val (h ! a)) as"
    using ch by (simp add: stack_values_def)
  show ?thesis
  proof (cases as)
    case Nil
    with p have "stack_top s = None" by simp
    with Nil v0 ch show ?thesis
      by (simp add: pop_def topNode_def isEmpty_def)
  next
    case (Cons a as')
    with p have t: "stack_top s = Some a" and a: "a < length h"
      and p': "path h (nxt (h ! a)) as'" by simp_all
    from p' have ch': "chain (length h) h (nxt (h ! a)) = Some as'"
      by (simp only: chain_iff_path)
    have pp: "pop (h, s) = (val (h ! a), (h, s\<lparr>stack_top := nxt (h ! a)\<rparr>))"
      using t by (simp add: pop_def)
    have tn: "topNode (h, s) = val (h ! a)" using t by (simp add: topNode_def)
    have v1: "stack_values (h, s\<lparr>stack_top := nxt (h ! a)\<rparr>) = map (\<lambda>a. val (h ! a)) as'"
      using ch' by (simp add: stack_values_def del: chain.simps)
    have ne: "\<not> isEmpty (h, s)" using t by (simp add: isEmpty_def)
    from pp tn v1 ne v0 Cons ch' show ?thesis by simp
  qed
qed

text \<open>
  Claim C6. For every heap, stack and value \<open>x\<close>: after \<open>push(x)\<close>, \<open>topNode()\<close>
  returns \<open>x\<close>, and \<open>pop()\<close> returns \<open>x\<close> and restores the stack to its previous
  \<open>top\<close> pointer, every node allocated before being unchanged. On every stack whose
  chain from \<open>top\<close> is well formed (it ends at \<open>nil\<close>, as every chain built by \<open>push\<close> and
  \<open>pop\<close> from the empty stack does): the values held after \<open>push(x)\<close> are \<open>x\<close> followed by
  the old values, and after the \<open>pop\<close> they are the old values again; \<open>push\<close> and \<open>pop\<close>
  keep the chain well formed, \<open>push\<close> adding the new node in front and \<open>pop\<close> removing the
  first node, no node being changed; \<open>isEmpty()\<close> holds exactly when no value is held;
  when the values held are \<open>v\<close> followed by \<open>vs\<close>, whatever operations came before,
  \<open>topNode()\<close> returns \<open>v\<close> and \<open>pop()\<close> returns \<open>v\<close> and leaves \<open>vs\<close>: the last value pushed
  and not yet popped is the first to come out; when no value is held, \<open>topNode()\<close> and
  \<open>pop()\<close> return \<open>0\<close> and \<open>pop()\<close> changes nothing. On the empty stack \<open>pop()\<close> and
  \<open>topNode()\<close> return \<open>0\<close> and the stack stays empty.
\<close>

theorem Stack_lifo:
  "topNode (push x (h, s)) = x
   \<and> pop (push x (h, s)) = (x, (h @ [\<lparr>val = x, nxt = stack_top s\<rparr>], s))
   \<and> (\<forall>as. chain (length h) h (stack_top s) = Some as \<longrightarrow>
         stack_values (push x (h, s)) = x # stack_values (h, s)
         \<and> stack_values (snd (pop (push x (h, s)))) = stack_values (h, s)
         \<and> chain (length (fst (push x (h, s)))) (fst (push x (h, s)))
             (stack_top (snd (push x (h, s)))) = Some (length h # as)
         \<and> fst (snd (pop (h, s))) = h
         \<and> chain (length h) h (stack_top (snd (snd (pop (h, s))))) = Some (tl as)
         \<and> isEmpty (h, s) = (stack_values (h, s) = [])
         \<and> (\<forall>v vs. stack_values (h, s) = v # vs \<longrightarrow>
               topNode (h, s) = v \<and> fst (pop (h, s)) = v
               \<and> stack_values (snd (pop (h, s))) = vs)
         \<and> (stack_values (h, s) = [] \<longrightarrow> topNode (h, s) = 0 \<and> pop (h, s) = (0, (h, s))))
   \<and> (stack_top s = None \<longrightarrow>
        pop (h, s) = (0, (h, s)) \<and> topNode (h, s) = 0 \<and> isEmpty (snd (pop (h, s))))"
proof -
  let ?n = "\<lparr>val = x, nxt = stack_top s\<rparr>"
  have a: "topNode (push x (h, s)) = x"
    by (simp add: topNode_def push_def Let_def)
  have b: "pop (push x (h, s)) = (x, (h @ [?n], s))"
    by (simp add: push_def pop_def Let_def)
  have c: "stack_values (push x (h, s)) = x # stack_values (h, s)
         \<and> stack_values (snd (pop (push x (h, s)))) = stack_values (h, s)
         \<and> chain (length (fst (push x (h, s)))) (fst (push x (h, s)))
             (stack_top (snd (push x (h, s)))) = Some (length h # as)"
    if ch: "chain (length h) h (stack_top s) = Some as" for as
  proof -
    from ch have p: "path h (stack_top s) as" by (simp add: chain_iff_path)
    then have bd: "\<forall>a\<in>set as. a < length h" by (auto dest: path_bound)
    have p1: "path (h @ [?n]) (stack_top s) as" using p by (rule path_grow)
    then have p2: "path (h @ [?n]) (Some (length h)) (length h # as)" by simp
    have same: "map (\<lambda>a. val ((h @ [?n]) ! a)) as = map (\<lambda>a. val (h ! a)) as"
      using bd by (simp add: nth_append)
    have v0: "stack_values (h, s) = map (\<lambda>a. val (h ! a)) as"
      using ch by (simp add: stack_values_def)
    have "chain (length (h @ [?n])) (h @ [?n]) (stack_top s) = Some as"
      using p1 by (simp only: chain_iff_path)
    then have "stack_values (h @ [?n], s) = stack_values (h, s)"
      using same v0 by (simp add: stack_values_def del: chain.simps)
    moreover
    have c2: "chain (length (h @ [?n])) (h @ [?n]) (Some (length h)) = Some (length h # as)"
      using p2 by (simp only: chain_iff_path)
    then have "stack_values (h @ [?n], s\<lparr>stack_top := Some (length h)\<rparr>) = x # stack_values (h, s)"
      using same v0 by (simp add: stack_values_def del: chain.simps)
    then have "stack_values (push x (h, s)) = x # stack_values (h, s)"
      by (simp add: push_def Let_def)
    moreover
    have "chain (length (fst (push x (h, s)))) (fst (push x (h, s)))
             (stack_top (snd (push x (h, s)))) = Some (length h # as)"
      using c2 by (simp add: push_def Let_def del: chain.simps)
    ultimately show ?thesis using b by simp
  qed
  have d: "pop (h, s) = (0, (h, s)) \<and> topNode (h, s) = 0 \<and> isEmpty (snd (pop (h, s)))"
    if "stack_top s = None"
    using that by (simp add: pop_def topNode_def isEmpty_def)
  have e: "fst (snd (pop (h, s))) = h
     \<and> chain (length h) h (stack_top (snd (snd (pop (h, s))))) = Some (tl as)
     \<and> isEmpty (h, s) = (stack_values (h, s) = [])
     \<and> (\<forall>v vs. stack_values (h, s) = v # vs \<longrightarrow>
           topNode (h, s) = v \<and> fst (pop (h, s)) = v \<and> stack_values (snd (pop (h, s))) = vs)
     \<and> (stack_values (h, s) = [] \<longrightarrow> topNode (h, s) = 0 \<and> pop (h, s) = (0, (h, s)))"
    if "chain (length h) h (stack_top s) = Some as" for as
    using that by (rule pop_well_formed)
  have ce: "stack_values (push x (h, s)) = x # stack_values (h, s)
         \<and> stack_values (snd (pop (push x (h, s)))) = stack_values (h, s)
         \<and> chain (length (fst (push x (h, s)))) (fst (push x (h, s)))
             (stack_top (snd (push x (h, s)))) = Some (length h # as)
         \<and> fst (snd (pop (h, s))) = h
         \<and> chain (length h) h (stack_top (snd (snd (pop (h, s))))) = Some (tl as)
         \<and> isEmpty (h, s) = (stack_values (h, s) = [])
         \<and> (\<forall>v vs. stack_values (h, s) = v # vs \<longrightarrow>
               topNode (h, s) = v \<and> fst (pop (h, s)) = v
               \<and> stack_values (snd (pop (h, s))) = vs)
         \<and> (stack_values (h, s) = [] \<longrightarrow> topNode (h, s) = 0 \<and> pop (h, s) = (0, (h, s)))"
    if ch: "chain (length h) h (stack_top s) = Some as" for as
    using c [OF ch] e [OF ch] by blast
  show ?thesis
    apply (rule conjI, rule a)
    apply (rule conjI, rule b)
    apply (rule conjI)
     apply (rule allI, rule impI, erule ce)
    apply (rule impI, erule d)
    done
qed

theorem Stack_lifo_witness:
  "main_stack = ([\<lparr>val = 3, nxt = None\<rparr>, \<lparr>val = 5, nxt = Some 0\<rparr>, \<lparr>val = 7, nxt = Some 1\<rparr>],
                 \<lparr>stack_top = Some 2\<rparr>)
   \<and> chain (length (fst main_stack)) (fst main_stack) (stack_top (snd main_stack)) = Some [2, 1, 0]
   \<and> stack_values main_stack = [7, 5, 3]
   \<and> topNode (push 23 main_stack) = 23
   \<and> fst (pop (push 23 main_stack)) = 23
   \<and> snd (snd (pop (push 23 main_stack))) = snd main_stack
   \<and> stack_values (push 23 main_stack) = [23, 7, 5, 3]
   \<and> stack_values (snd (pop (push 23 main_stack))) = [7, 5, 3]
   \<and> stack_top \<lparr>stack_top = None\<rparr> = None
   \<and> pop ([], \<lparr>stack_top = None\<rparr>) = (0, ([], \<lparr>stack_top = None\<rparr>))
   \<and> topNode ([], \<lparr>stack_top = None\<rparr>) = 0
   \<and> popped_stack = (fst main_stack, \<lparr>stack_top = Some 1\<rparr>)
   \<and> chain (length (fst popped_stack)) (fst popped_stack) (stack_top (snd popped_stack))
       = Some [1, 0]
   \<and> stack_values popped_stack = [5, 3]
   \<and> \<not> isEmpty popped_stack
   \<and> topNode popped_stack = 5
   \<and> fst (pop popped_stack) = 5
   \<and> fst (snd (pop popped_stack)) = fst popped_stack
   \<and> chain (length (fst popped_stack)) (fst popped_stack)
       (stack_top (snd (snd (pop popped_stack)))) = Some [0]
   \<and> stack_values (snd (pop popped_stack)) = [3]"
proof -
  have m: "main_stack = ([\<lparr>val = 3, nxt = None\<rparr>, \<lparr>val = 5, nxt = Some 0\<rparr>,
                           \<lparr>val = 7, nxt = Some 1\<rparr>], \<lparr>stack_top = Some 2\<rparr>)"
    by (simp add: main_stack_def push_def Let_def)
  have c: "chain (length (fst main_stack)) (fst main_stack) (stack_top (snd main_stack))
             = Some [2, 1, 0]"
    by (simp add: m numeral_3_eq_3 numeral_2_eq_2)
  have v: "stack_values main_stack = [7, 5, 3]"
    by (simp add: m stack_values_def numeral_3_eq_3 numeral_2_eq_2)
  have t: "topNode (push 23 main_stack) = 23
      \<and> pop (push 23 main_stack)
          = (23, (fst main_stack @ [\<lparr>val = 23, nxt = stack_top (snd main_stack)\<rparr>], snd main_stack))
      \<and> stack_values (push 23 main_stack) = 23 # stack_values main_stack
      \<and> stack_values (snd (pop (push 23 main_stack))) = stack_values main_stack"
    using c Stack_lifo [of 23 "fst main_stack" "snd main_stack", unfolded prod.collapse]
    by blast
  have e: "pop ([], \<lparr>stack_top = None\<rparr>) = (0, ([], \<lparr>stack_top = None\<rparr>))
      \<and> topNode ([], \<lparr>stack_top = None\<rparr>) = 0"
    using Stack_lifo [of 0 "[]" "\<lparr>stack_top = None\<rparr>"] by simp
  from t have t1: "topNode (push 23 main_stack) = 23" by blast
  from t have "pop (push 23 main_stack)
      = (23, (fst main_stack @ [\<lparr>val = 23, nxt = stack_top (snd main_stack)\<rparr>], snd main_stack))"
    by blast
  then have t2: "fst (pop (push 23 main_stack)) = 23"
    and t3: "snd (snd (pop (push 23 main_stack))) = snd main_stack" by simp_all
  from t have "stack_values (push 23 main_stack) = 23 # stack_values main_stack" by blast
  with v have t4: "stack_values (push 23 main_stack) = [23, 7, 5, 3]" by simp
  from t have "stack_values (snd (pop (push 23 main_stack))) = stack_values main_stack" by blast
  with v have t5: "stack_values (snd (pop (push 23 main_stack))) = [7, 5, 3]" by simp
  have n: "stack_top \<lparr>stack_top = None\<rparr> = None" by simp
  have q: "popped_stack = (fst main_stack, \<lparr>stack_top = Some 1\<rparr>)"
    by (simp add: popped_stack_def m pop_def)
  have qc: "chain (length (fst popped_stack)) (fst popped_stack) (stack_top (snd popped_stack))
              = Some [1, 0]"
    by (simp add: q m numeral_3_eq_3 numeral_2_eq_2)
  have qv: "stack_values popped_stack = [5, 3]"
    by (simp add: q m stack_values_def numeral_3_eq_3 numeral_2_eq_2)
  have u: "fst (snd (pop popped_stack)) = fst popped_stack
      \<and> chain (length (fst popped_stack)) (fst popped_stack)
          (stack_top (snd (snd (pop popped_stack)))) = Some (tl [1, 0])
      \<and> isEmpty popped_stack = (stack_values popped_stack = [])
      \<and> (\<forall>v vs. stack_values popped_stack = v # vs \<longrightarrow>
            topNode popped_stack = v \<and> fst (pop popped_stack) = v
            \<and> stack_values (snd (pop popped_stack)) = vs)"
    using qc Stack_lifo [of 0 "fst popped_stack" "snd popped_stack", unfolded prod.collapse]
    by blast
  from u qv have u1: "\<not> isEmpty popped_stack" by simp
  from u qv have u2: "topNode popped_stack = 5" and u3: "fst (pop popped_stack) = 5"
    and u4: "stack_values (snd (pop popped_stack)) = [3]" by blast+
  from u have u5: "fst (snd (pop popped_stack)) = fst popped_stack" by blast
  from u have u6: "chain (length (fst popped_stack)) (fst popped_stack)
          (stack_top (snd (snd (pop popped_stack)))) = Some [0]" by simp
  from m c v t1 t2 t3 t4 t5 n e q qc qv u1 u2 u3 u4 u5 u6 show ?thesis by blast
qed
subsection \<open>mergeSort\<close>

text \<open>A call of \<open>mergeSort\<close> that returns was made on a non-empty slice.\<close>

lemma mergeSort_Some_nonempty:
  assumes "mergeSort arr = Some ys"
  shows "arr \<noteq> []"
  by (rule mergeSort.raw_induct [where P = "\<lambda>x y. x \<noteq> []", OF _ assms])
    (fastforce simp: Let_def Option.bind_eq_Some_conv)

text \<open>
  Claim C9 says that \<open>mergeSort\<close> terminates on every slice, the empty one included, and
  returns a nondecreasing permutation. On the empty slice the length is not \<open>1\<close>,
  \<open>mid\<close> is \<open>0\<close>, and the first recursive call is again on the empty slice
  \<open>arr[:0]\<close>: the call never returns.
\<close>

theorem mergeSort_empty_never_returns: "mergeSort [] = None"
  using mergeSort_Some_nonempty [of "[]"] by (cases "mergeSort []") auto

text \<open>On every non-empty slice \<open>mergeSort\<close> does return, without an index panic in
  \<open>merge\<close>, and the result is a nondecreasing permutation of the input.\<close>

lemma merge_rest_spec:
  "i \<le> length src \<Longrightarrow> k + (length src - i) \<le> length mixed \<Longrightarrow>
   merge_rest src i k mixed =
     Some (k + (length src - i), take k mixed @ drop i src @ drop (k + (length src - i)) mixed)"
proof (induction src i k mixed rule: merge_rest.induct)
  case (1 src i k mixed)
  show ?case
  proof (cases "i < length src")
    case True
    with 1(2,3) have k: "k < length mixed" by simp
    have "merge_rest src i k mixed = merge_rest src (i + 1) (k + 1) (mixed[k := src ! i])"
      using True k by (subst merge_rest.simps) (simp add: slice_set_def)
    also have "\<dots> = Some (k + 1 + (length src - (i + 1)),
        take (k + 1) (mixed[k := src ! i]) @ drop (i + 1) src
          @ drop (k + 1 + (length src - (i + 1))) (mixed[k := src ! i]))"
      using True k 1(2,3) by (intro "1.IH") (auto simp: slice_set_def)
    also have "take (k + 1) (mixed[k := src ! i]) = take k mixed @ [src ! i]"
      using k by (simp add: take_Suc_conv_app_nth)
    also have "k + 1 + (length src - (i + 1)) = k + (length src - i)" using True by arith
    also have "drop (k + (length src - i)) (mixed[k := src ! i])
                 = drop (k + (length src - i)) mixed"
      using True by simp
    finally show ?thesis using True by (simp add: Cons_nth_drop_Suc)
  next
    case False
    with 1(2) show ?thesis by (subst merge_rest.simps) simp
  qed
qed


lemma fmerge_Nil2: "fmerge xs [] = xs"
  by (cases xs) auto

lemma merge_finish_exit:
  assumes "\<not> (i < length first \<and> j < length second)"
    and "i \<le> length first" "j \<le> length second"
    and "length mixed = length first + length second"
  shows "merge_finish first second (Some (i, j, i + j, mixed))
           = Some (take (i + j) mixed @ fmerge (drop i first) (drop j second))"
proof -
  let ?k1 = "i + j + (length first - i)"
  let ?m1 = "take (i + j) mixed @ drop i first @ drop ?k1 mixed"
  have r1: "merge_rest first i (i + j) mixed = Some (?k1, ?m1)"
    using assms by (intro merge_rest_spec) auto
  have l1: "length ?m1 = length mixed" using assms by auto
  have r2: "merge_rest second j ?k1 ?m1
              = Some (?k1 + (length second - j),
                      take ?k1 ?m1 @ drop j second @ drop (?k1 + (length second - j)) ?m1)"
    using assms l1 by (intro merge_rest_spec) auto
  have t: "take ?k1 ?m1 = take (i + j) mixed @ drop i first"
    using assms by auto
  have d: "drop (?k1 + (length second - j)) ?m1 = []"
    using assms l1 by auto
  have f: "fmerge (drop i first) (drop j second) = drop i first @ drop j second"
    using assms(1-3) by (cases "i < length first") (auto simp: fmerge_Nil2)
  show ?thesis
    unfolding merge_finish_def using r1 r2 t d f by simp
qed

lemma merge_both_spec:
  "i \<le> length first \<Longrightarrow> j \<le> length second \<Longrightarrow> k = i + j \<Longrightarrow>
   length mixed = length first + length second \<Longrightarrow>
   merge_finish first second (merge_both first second i j k mixed)
     = Some (take k mixed @ fmerge (drop i first) (drop j second))"
proof (induction first second i j k mixed rule: merge_both.induct)
  case (1 first second i j k mixed)
  show ?case
  proof (cases "i < length first \<and> j < length second")
    case False
    then have "merge_both first second i j k mixed = Some (i, j, k, mixed)"
      by (subst merge_both.simps) (simp only: if_False)
    with False 1(3-6) show ?thesis by (simp add: merge_finish_exit)
  next
    case True
    then have k: "k < length mixed" using 1(5,6) by simp
    have di: "drop i first = first ! i # drop (i + 1) first"
      and dj: "drop j second = second ! j # drop (j + 1) second"
      using True by (simp_all add: Cons_nth_drop_Suc)
    show ?thesis
    proof (cases "first ! i > second ! j")
      case gt: True
      let ?m = "mixed[k := second ! j]"
      have "merge_both first second i j k mixed = merge_both first second i (j + 1) (k + 1) ?m"
        using True gt k by (subst merge_both.simps) (simp add: slice_set_def)
      moreover have "merge_finish first second (merge_both first second i (j + 1) (k + 1) ?m)
          = Some (take (k + 1) ?m @ fmerge (drop i first) (drop (j + 1) second))"
        using True gt k 1(3-6) by (intro "1.IH"(1)) (auto simp: slice_set_def)
      moreover have "take (k + 1) ?m = take k mixed @ [second ! j]"
        using k by (simp add: take_Suc_conv_app_nth)
      ultimately show ?thesis using gt di dj by simp
    next
      case le: False
      let ?m = "mixed[k := first ! i]"
      have "merge_both first second i j k mixed = merge_both first second (i + 1) j (k + 1) ?m"
        using True le k by (subst merge_both.simps) (simp add: slice_set_def)
      moreover have "merge_finish first second (merge_both first second (i + 1) j (k + 1) ?m)
          = Some (take (k + 1) ?m @ fmerge (drop (i + 1) first) (drop j second))"
        using True le k 1(3-6) by (intro "1.IH"(2)) (auto simp: slice_set_def)
      moreover have "take (k + 1) ?m = take k mixed @ [first ! i]"
        using k by (simp add: take_Suc_conv_app_nth)
      ultimately show ?thesis using le di dj by simp
    qed
  qed
qed

lemma merge_fmerge: "merge first second = Some (fmerge first second)"
  using merge_both_spec [of 0 first 0 second 0 "replicate (length first + length second) 0"]
  by (simp add: merge_def merge_finish_def)

lemma mset_fmerge: "mset (fmerge xs ys) = mset xs + mset ys"
  by (induction xs ys rule: fmerge.induct) auto

lemma set_fmerge: "set (fmerge xs ys) = set xs \<union> set ys"
  by (induction xs ys rule: fmerge.induct) auto

lemma sorted_fmerge: "sorted xs \<Longrightarrow> sorted ys \<Longrightarrow> sorted (fmerge xs ys)"
  by (induction xs ys rule: fmerge.induct) (auto simp: set_fmerge)

lemma mergeSort_sorts:
  "arr \<noteq> [] \<Longrightarrow> \<exists>ys. mergeSort arr = Some ys \<and> sorted ys \<and> mset ys = mset arr"
proof (induction "length arr" arbitrary: arr rule: less_induct)
  case less
  show ?case
  proof (cases "length arr = 1")
    case True
    then obtain x where "arr = [x]" by (cases arr) auto
    then show ?thesis by (subst mergeSort.simps) simp
  next
    case False
    moreover have "length arr \<noteq> 0" using less.prems by simp
    ultimately have len: "2 \<le> length arr" by arith
    let ?mid = "length arr div 2"
    let ?l = "take ?mid arr" and ?r = "drop ?mid arr"
    have "?l \<noteq> []" "length ?l < length arr" using len by auto
    from less.hyps [OF this(2) this(1)]
    obtain ls where l: "mergeSort ?l = Some ls" "sorted ls" "mset ls = mset ?l" by blast
    have "?r \<noteq> []" "length ?r < length arr" using len by auto
    from less.hyps [OF this(2) this(1)]
    obtain rs where r: "mergeSort ?r = Some rs" "sorted rs" "mset rs = mset ?r" by blast
    have "mergeSort arr = Some (fmerge ls rs)"
      using False l(1) r(1) by (subst mergeSort.simps) (simp add: merge_fmerge)
    moreover have "mset (fmerge ls rs) = mset arr"
      using l(3) r(3) by (simp add: mset_fmerge flip: mset_append)
    ultimately show ?thesis using l(2) r(2) by (simp add: sorted_fmerge)
  qed
qed

subsection \<open>quickSort\<close>

lemma scan_up_spec:
  "0 \<le> s \<Longrightarrow> s \<le> k \<Longrightarrow> k < int (length arr) \<Longrightarrow> p \<le> arr ! nat k \<Longrightarrow>
   \<exists>s'. scan_up arr p s = Some s' \<and> s \<le> s' \<and> s' \<le> k \<and> p \<le> arr ! nat s'
        \<and> (\<forall>i. s \<le> i \<and> i < s' \<longrightarrow> arr ! nat i < p)"
proof (induction arr p s rule: scan_up.induct)
  case (1 arr p s)
  have ok: "index_ok arr s" using 1(2-4) by (simp add: index_ok_def)
  show ?case
  proof (cases "arr ! nat s < p")
    case False
    then have "scan_up arr p s = Some s" using ok by (subst scan_up.simps) simp
    with False 1(3) show ?thesis by auto
  next
    case True
    with 1(5) have "s \<noteq> k" by auto
    with 1(3) have lt: "s + 1 \<le> k" by simp
    from "1.IH" [OF ok True _ lt 1(4,5)] 1(2)
    obtain s' where s': "scan_up arr p (s + 1) = Some s'" "s + 1 \<le> s'" "s' \<le> k"
      "p \<le> arr ! nat s'" "\<forall>i. s + 1 \<le> i \<and> i < s' \<longrightarrow> arr ! nat i < p" by auto
    have "scan_up arr p s = Some s'" using ok True s'(1) by (subst scan_up.simps) simp
    moreover have "arr ! nat i < p" if "s \<le> i" "i < s'" for i
      using that True s'(5) by (cases "i = s") auto
    ultimately show ?thesis using s'(2-4) by auto
  qed
qed

lemma scan_down_spec:
  "0 \<le> k \<Longrightarrow> k \<le> e \<Longrightarrow> e < int (length arr) \<Longrightarrow> arr ! nat k \<le> p \<Longrightarrow>
   \<exists>e'. scan_down arr p e = Some e' \<and> e' \<le> e \<and> k \<le> e' \<and> arr ! nat e' \<le> p
        \<and> (\<forall>i. e' < i \<and> i \<le> e \<longrightarrow> p < arr ! nat i)"
proof (induction arr p e rule: scan_down.induct)
  case (1 arr p e)
  have ok: "index_ok arr e" using 1(2-4) by (simp add: index_ok_def)
  show ?case
  proof (cases "arr ! nat e > p")
    case False
    then have "scan_down arr p e = Some e" using ok by (subst scan_down.simps) simp
    with False 1(3) show ?thesis by auto
  next
    case True
    with 1(5) have "e \<noteq> k" by auto
    with 1(3) have lt: "k \<le> e - 1" by simp
    from "1.IH" [OF ok True 1(2) lt _ 1(5)] 1(4)
    obtain e' where e': "scan_down arr p (e - 1) = Some e'" "e' \<le> e - 1" "k \<le> e'"
      "arr ! nat e' \<le> p" "\<forall>i. e' < i \<and> i \<le> e - 1 \<longrightarrow> p < arr ! nat i" by auto
    have "scan_down arr p e = Some e'" using ok True e'(1) by (subst scan_down.simps) simp
    moreover have "p < arr ! nat i" if "e' < i" "i \<le> e" for i
      using that True e'(5) by (cases "i = e") auto
    ultimately show ?thesis using e'(2-4) by auto
  qed
qed

lemma range_permI:
  assumes "length b = length a" "mset b = mset a"
    and "\<And>n. int n < l \<or> h < int n \<Longrightarrow> b ! n = a ! n"
    and "\<And>P i. (\<And>j. l \<le> j \<Longrightarrow> j \<le> h \<Longrightarrow> P (a ! nat j)) \<Longrightarrow> l \<le> i \<Longrightarrow> i \<le> h \<Longrightarrow> P (b ! nat i)"
  shows "range_perm a b l h"
  unfolding range_perm_def
proof (intro conjI allI impI)
  show "length b = length a" "mset b = mset a" by fact+
  show "b ! n = a ! n" if "int n < l \<or> h < int n" for n using that by (rule assms(3))
  show "P (b ! nat i)"
    if "\<forall>j. l \<le> j \<and> j \<le> h \<longrightarrow> P (a ! nat j)" "l \<le> i \<and> i \<le> h" for P i
  proof (rule assms(4))
    show "P (a ! nat j)" if "l \<le> j" "j \<le> h" for j using that \<open>\<forall>j. _\<close> by simp
    show "l \<le> i" "i \<le> h" using that(2) by simp_all
  qed
qed

lemma range_perm_length: "range_perm a b l h \<Longrightarrow> length b = length a"
  by (simp add: range_perm_def)

lemma range_perm_mset: "range_perm a b l h \<Longrightarrow> mset b = mset a"
  by (simp add: range_perm_def)

lemma range_perm_outside:
  assumes "range_perm a b l h" and "int n < l \<or> h < int n"
  shows "b ! n = a ! n"
proof -
  note c = assms(1) [unfolded range_perm_def, THEN conjunct2, THEN conjunct2, THEN conjunct1]
  from c [rule_format, OF assms(2)] show ?thesis .
qed

lemma range_perm_inside:
  assumes "range_perm a b l h" and "\<And>j. l \<le> j \<Longrightarrow> j \<le> h \<Longrightarrow> P (a ! nat j)"
    and "l \<le> i" "i \<le> h"
  shows "P (b ! nat i)"
proof -
  note d = assms(1) [unfolded range_perm_def, THEN conjunct2, THEN conjunct2, THEN conjunct2]
  have "\<forall>j. l \<le> j \<and> j \<le> h \<longrightarrow> P (a ! nat j)" using assms(2) by simp
  with d [rule_format, of P i] assms(3,4) show ?thesis by simp
qed

lemma range_perm_refl: "range_perm arr arr low high"
  by (rule range_permI) simp_all

lemma range_perm_trans:
  assumes ab: "range_perm a b low high" and bc: "range_perm b c low high"
  shows "range_perm a c low high"
proof (rule range_permI)
  show "length c = length a" using ab bc by (simp add: range_perm_length)
  show "mset c = mset a" using ab bc by (simp add: range_perm_mset)
  show "c ! n = a ! n" if "int n < low \<or> high < int n" for n
    using range_perm_outside [OF ab that] range_perm_outside [OF bc that] by simp
  show "P (c ! nat i)"
    if a: "\<And>j. low \<le> j \<Longrightarrow> j \<le> high \<Longrightarrow> P (a ! nat j)" and i: "low \<le> i" "i \<le> high" for P i
  proof (rule range_perm_inside [where P = P, OF bc _ i])
    show "P (b ! nat j)" if "low \<le> j" "j \<le> high" for j
      using that by (intro range_perm_inside [where P = P, OF ab] a)
  qed
qed

lemma range_perm_mono:
  assumes ab: "range_perm a b l h" and "0 \<le> low" "low \<le> l" "h \<le> high"
  shows "range_perm a b low high"
proof (rule range_permI)
  show "length b = length a" using ab by (rule range_perm_length)
  show "mset b = mset a" using ab by (rule range_perm_mset)
  show "b ! n = a ! n" if "int n < low \<or> high < int n" for n
  proof (rule range_perm_outside [OF ab])
    show "int n < l \<or> h < int n" using that assms(3,4) by linarith
  qed
  show "P (b ! nat i)"
    if a: "\<And>j. low \<le> j \<Longrightarrow> j \<le> high \<Longrightarrow> P (a ! nat j)" and i: "low \<le> i" "i \<le> high" for P i
  proof (cases "l \<le> i \<and> i \<le> h")
    case True
    show ?thesis
    proof (rule range_perm_inside [where P = P, OF ab])
      show "P (a ! nat j)" if "l \<le> j" "j \<le> h" for j
        using that assms(3,4) by (intro a) linarith+
      show "l \<le> i" "i \<le> h" using True by simp_all
    qed
  next
    case False
    have "0 \<le> i" using i(1) assms(2) by linarith
    then have "int (nat i) = i" by simp
    with False have "int (nat i) < l \<or> h < int (nat i)" by linarith
    from range_perm_outside [OF ab this] a [OF i] show ?thesis by simp
  qed
qed

lemma swap_nth:
  assumes "0 \<le> s" "s < int (length arr)" "0 \<le> e" "e < int (length arr)" "0 \<le> i"
  shows "swap arr s e ! nat i = (if i = s then arr ! nat e else if i = e then arr ! nat s
                                 else arr ! nat i)"
proof -
  have ns: "nat s < length arr" and ne: "nat e < length arr" using assms(1-4) by simp_all
  have neq_s: "nat i \<noteq> nat s" if "i \<noteq> s" using that assms(1,5) by (simp add: eq_nat_nat_iff)
  have neq_e: "nat i \<noteq> nat e" if "i \<noteq> e" using that assms(3,5) by (simp add: eq_nat_nat_iff)
  show ?thesis
  proof (cases "i = s")
    case True
    then show ?thesis using ns by (simp add: swap_def)
  next
    case False
    note ns' = neq_s [OF False]
    show ?thesis
    proof (cases "i = e")
      case True
      with False ns' ne show ?thesis by (simp add: swap_def)
    next
      case e: False
      with False ns' neq_e [OF e] show ?thesis by (simp add: swap_def)
    qed
  qed
qed

lemma range_perm_swap:
  assumes "0 \<le> low" "high < int (length arr)" "low \<le> s" "s \<le> high" "low \<le> e" "e \<le> high"
  shows "range_perm arr (swap arr s e) low high"
proof (rule range_permI)
  have s: "0 \<le> s" "s < int (length arr)" and e: "0 \<le> e" "e < int (length arr)"
    using assms by simp_all
  then have ns: "nat s < length arr" and ne: "nat e < length arr" by simp_all
  show "length (swap arr s e) = length arr" by (simp add: swap_def)
  show "mset (swap arr s e) = mset arr" using ns ne by (simp add: swap_def mset_swap)
  show "swap arr s e ! n = arr ! n" if "int n < low \<or> high < int n" for n
  proof -
    have "int n \<noteq> s" "int n \<noteq> e" using that assms(3-6) by auto
    then show ?thesis using swap_nth [OF s e, of "int n"] by simp
  qed
  show "P (swap arr s e ! nat i)"
    if a: "\<And>j. low \<le> j \<Longrightarrow> j \<le> high \<Longrightarrow> P (arr ! nat j)" and i: "low \<le> i" "i \<le> high" for P i
  proof -
    have "0 \<le> i" using i(1) assms(1) by linarith
    from swap_nth [OF s e this] a [OF assms(3,4)] a [OF assms(5,6)] a [OF i]
    show ?thesis by simp
  qed
qed


lemma part_invI:
  assumes "0 \<le> low" "high < int (length arr)" "low \<le> s" "s \<le> high + 1" "low - 1 \<le> e" "e \<le> high"
    and "\<And>i. low \<le> i \<Longrightarrow> i < s \<Longrightarrow> arr ! nat i \<le> p"
    and "\<And>i. e < i \<Longrightarrow> i \<le> high \<Longrightarrow> p \<le> arr ! nat i"
    and "s \<le> e \<Longrightarrow> \<exists>k. s \<le> k \<and> k \<le> high \<and> p \<le> arr ! nat k"
    and "s \<le> e \<Longrightarrow> \<exists>k. low \<le> k \<and> k \<le> e \<and> arr ! nat k \<le> p"
  shows "part_inv arr p low high s e"
  unfolding part_inv_def using assms by blast

lemma part_inv_bounds:
  assumes "part_inv arr p low high s e"
  shows "0 \<le> low" "high < int (length arr)" "low \<le> s" "s \<le> high + 1" "low - 1 \<le> e" "e \<le> high"
  using assms by (simp_all add: part_inv_def)

lemma part_inv_left:
  "part_inv arr p low high s e \<Longrightarrow> low \<le> i \<Longrightarrow> i < s \<Longrightarrow> arr ! nat i \<le> p"
  by (simp add: part_inv_def)

lemma part_inv_right:
  "part_inv arr p low high s e \<Longrightarrow> e < i \<Longrightarrow> i \<le> high \<Longrightarrow> p \<le> arr ! nat i"
  by (simp add: part_inv_def)

lemma part_inv_sentinels:
  assumes "part_inv arr p low high s e" "s \<le> e"
  obtains ku kd where "s \<le> ku" "ku \<le> high" "p \<le> arr ! nat ku"
    "low \<le> kd" "kd \<le> e" "arr ! nat kd \<le> p"
  using assms unfolding part_inv_def by blast

lemma part_inv_swap:
  assumes inv: "part_inv arr p low high s e"
    and s1: "s \<le> s1" "p \<le> arr ! nat s1" "\<And>i. s \<le> i \<Longrightarrow> i < s1 \<Longrightarrow> arr ! nat i < p"
    and e1: "e1 \<le> e" "arr ! nat e1 \<le> p" "\<And>i. e1 < i \<Longrightarrow> i \<le> e \<Longrightarrow> p < arr ! nat i"
    and le: "s1 \<le> e1"
  shows "part_inv (swap arr s1 e1) p low high (s1 + 1) (e1 - 1)"
proof -
  note b = part_inv_bounds [OF inv]
  have bs: "0 \<le> s1" "s1 < int (length arr)" and be: "0 \<le> e1" "e1 < int (length arr)"
    using b s1(1) e1(1) le by simp_all
  note nth = swap_nth [OF bs be]
  show ?thesis
  proof (rule part_invI)
    show "0 \<le> low" by (rule b)
    show "high < int (length (swap arr s1 e1))" using b(2) by (simp add: swap_def)
    show "low \<le> s1 + 1" using b(3) s1(1) by simp
    show "s1 + 1 \<le> high + 1" using le e1(1) b(6) by simp
    show "low - 1 \<le> e1 - 1" using b(3) s1(1) le by simp
    show "e1 - 1 \<le> high" using e1(1) b(6) by simp
  next
    fix i assume i: "low \<le> i" "i < s1 + 1"
    then have i0: "0 \<le> i" using b(1) by simp
    show "swap arr s1 e1 ! nat i \<le> p"
    proof (cases "i = s1")
      case True
      then show ?thesis using nth [OF i0] e1(2) by simp
    next
      case False
      then have lt: "i < s1" using i(2) by simp
      then have "i \<noteq> e1" using le by simp
      then have eq: "swap arr s1 e1 ! nat i = arr ! nat i" using nth [OF i0] False by simp
      show ?thesis
      proof (cases "i < s")
        case True
        then show ?thesis using eq part_inv_left [OF inv i(1)] by simp
      next
        case False
        then have "arr ! nat i < p" using s1(3) [of i] lt by simp
        then show ?thesis using eq by simp
      qed
    qed
  next
    fix i assume i: "e1 - 1 < i" "i \<le> high"
    then have i0: "0 \<le> i" using be(1) by simp
    show "p \<le> swap arr s1 e1 ! nat i"
    proof (cases "i = e1")
      case True
      then show ?thesis using nth [OF i0] s1(2) by simp
    next
      case False
      then have gt: "e1 < i" using i(1) by simp
      then have "i \<noteq> s1" using le by simp
      then have eq: "swap arr s1 e1 ! nat i = arr ! nat i" using nth [OF i0] False by simp
      show ?thesis
      proof (cases "e < i")
        case True
        then show ?thesis using eq part_inv_right [OF inv True i(2)] by simp
      next
        case False
        then have "p < arr ! nat i" using e1(3) [of i] gt by simp
        then show ?thesis using eq by simp
      qed
    qed
  next
    assume c: "s1 + 1 \<le> e1 - 1"
    then have "swap arr s1 e1 ! nat e1 = arr ! nat s1" using nth [OF be(1)] by simp
    then have "s1 + 1 \<le> e1 \<and> e1 \<le> high \<and> p \<le> swap arr s1 e1 ! nat e1"
      using c e1(1) part_inv_bounds(6) [OF inv] s1(2) by simp
    then show "\<exists>k. s1 + 1 \<le> k \<and> k \<le> high \<and> p \<le> swap arr s1 e1 ! nat k" by blast
  next
    assume c: "s1 + 1 \<le> e1 - 1"
    have "swap arr s1 e1 ! nat s1 = arr ! nat e1" using nth [OF bs(1)] by simp
    then have "low \<le> s1 \<and> s1 \<le> e1 - 1 \<and> swap arr s1 e1 ! nat s1 \<le> p"
      using c s1(1) part_inv_bounds(3) [OF inv] e1(2) by simp
    then show "\<exists>k. low \<le> k \<and> k \<le> e1 - 1 \<and> swap arr s1 e1 ! nat k \<le> p" by blast
  qed
qed

lemma part_inv_crossed:
  assumes inv: "part_inv arr p low high s e"
    and s1: "s \<le> s1" "s1 \<le> high" "\<And>i. s \<le> i \<Longrightarrow> i < s1 \<Longrightarrow> arr ! nat i < p"
    and e1: "e1 \<le> e" "low \<le> e1" "\<And>i. e1 < i \<Longrightarrow> i \<le> e \<Longrightarrow> p < arr ! nat i"
    and gt: "e1 < s1"
  shows "part_inv arr p low high s1 e1"
proof -
  note b = part_inv_bounds [OF inv]
  show ?thesis
  proof (rule part_invI)
    show "0 \<le> low" "high < int (length arr)" by (rule b)+
    show "low \<le> s1" using b(3) s1(1) by simp
    show "s1 \<le> high + 1" using s1(2) by simp
    show "low - 1 \<le> e1" using e1(2) by simp
    show "e1 \<le> high" using e1(1) b(6) by simp
  next
    fix i assume i: "low \<le> i" "i < s1"
    show "arr ! nat i \<le> p"
    proof (cases "i < s")
      case True
      then show ?thesis using part_inv_left [OF inv i(1)] by simp
    next
      case False
      then have "arr ! nat i < p" using s1(3) [of i] i(2) by simp
      then show ?thesis by simp
    qed
  next
    fix i assume i: "e1 < i" "i \<le> high"
    show "p \<le> arr ! nat i"
    proof (cases "e < i")
      case True
      then show ?thesis using part_inv_right [OF inv True i(2)] by simp
    next
      case False
      then have "p < arr ! nat i" using e1(3) [of i] i(1) by simp
      then show ?thesis by simp
    qed
  next
    assume "s1 \<le> e1"
    with gt show "\<exists>k. s1 \<le> k \<and> k \<le> high \<and> p \<le> arr ! nat k" by simp
  next
    assume "s1 \<le> e1"
    with gt show "\<exists>k. low \<le> k \<and> k \<le> e1 \<and> arr ! nat k \<le> p" by simp
  qed
qed


lemma qs_loop_spec:
  "part_inv arr p low high s e \<Longrightarrow>
   \<exists>arr' s' e'. qs_loop arr p s e = Some (arr', s', e')
      \<and> part_inv arr' p low high s' e' \<and> e' < s' \<and> s \<le> s' \<and> e' \<le> e
      \<and> range_perm arr arr' low high
      \<and> ((\<exists>k. s \<le> k \<and> k \<le> e \<and> arr ! nat k = p) \<longrightarrow> s < s' \<and> e' < e)"
proof (induction arr p s e rule: qs_loop.induct)
  case (1 arr p s e)
  note inv = "1.prems"
  note b = part_inv_bounds [OF inv]
  show ?case
  proof (cases "s \<le> e")
    case False
    then have "qs_loop arr p s e = Some (arr, s, e)"
      by (subst qs_loop.simps) simp
    moreover have "e < s" using False by simp
    moreover have "\<not> (\<exists>k. s \<le> k \<and> k \<le> e \<and> arr ! nat k = p)" using False by auto
    ultimately have "qs_loop arr p s e = Some (arr, s, e)
        \<and> part_inv arr p low high s e \<and> e < s \<and> s \<le> s \<and> e \<le> e
        \<and> range_perm arr arr low high
        \<and> ((\<exists>k. s \<le> k \<and> k \<le> e \<and> arr ! nat k = p) \<longrightarrow> s < s \<and> e < e)"
      using inv range_perm_refl [of arr low high] by blast
    then show ?thesis by blast
  next
    case True
    from part_inv_sentinels [OF inv True]
    obtain ku kd where ku: "s \<le> ku" "ku \<le> high" "p \<le> arr ! nat ku"
      and kd: "low \<le> kd" "kd \<le> e" "arr ! nat kd \<le> p" by blast
    have "0 \<le> s" "ku < int (length arr)" using b ku(2) by simp_all
    from scan_up_spec [OF this(1) ku(1) this(2) ku(3)]
    obtain s1 where s1: "scan_up arr p s = Some s1" "s \<le> s1" "s1 \<le> ku" "p \<le> arr ! nat s1"
      "\<forall>i. s \<le> i \<and> i < s1 \<longrightarrow> arr ! nat i < p" by blast
    have "0 \<le> kd" "e < int (length arr)" using b kd(1) by simp_all
    from scan_down_spec [OF this(1) kd(2) this(2) kd(3)]
    obtain e1 where e1: "scan_down arr p e = Some e1" "e1 \<le> e" "kd \<le> e1" "arr ! nat e1 \<le> p"
      "\<forall>i. e1 < i \<and> i \<le> e \<longrightarrow> p < arr ! nat i" by blast
    have s1': "arr ! nat i < p" if "s \<le> i" "i < s1" for i using that s1(5) by simp
    have e1': "p < arr ! nat i" if "e1 < i" "i \<le> e" for i using that e1(5) by simp
    show ?thesis
    proof (cases "s1 \<le> e1")
      case le: True
      let ?arr1 = "swap arr s1 e1"
      have step: "qs_loop arr p s e = qs_loop ?arr1 p (s1 + 1) (e1 - 1)"
        using True le s1(1) e1(1) by (subst qs_loop.simps) simp
      have inv1: "part_inv ?arr1 p low high (s1 + 1) (e1 - 1)"
        using inv s1(2,4) s1' e1(2,4) e1' le by (rule part_inv_swap)
      from "1.IH"(1) [OF True s1(1) e1(1) le inv1]
      obtain arr' s' e' where r: "qs_loop ?arr1 p (s1 + 1) (e1 - 1) = Some (arr', s', e')"
        "part_inv arr' p low high s' e'" "e' < s'" "s1 + 1 \<le> s'" "e' \<le> e1 - 1"
        "range_perm ?arr1 arr' low high" by blast
      have "low \<le> s1" "s1 \<le> high" "low \<le> e1" "e1 \<le> high"
        using b s1(2,3) ku(2) e1(2,3) kd(1) by simp_all
      from range_perm_swap [OF b(1,2) this]
      have "range_perm arr ?arr1 low high" .
      then have rp: "range_perm arr arr' low high" using r(6) by (rule range_perm_trans)
      have lt: "s < s'" "e' < e" "s \<le> s'" "e' \<le> e" using r(4,5) s1(2) e1(2) by simp_all
      have "qs_loop arr p s e = Some (arr', s', e')" using step r(1) by simp
      with r(2,3) rp lt have "qs_loop arr p s e = Some (arr', s', e')
        \<and> part_inv arr' p low high s' e' \<and> e' < s' \<and> s \<le> s' \<and> e' \<le> e
        \<and> range_perm arr arr' low high
        \<and> ((\<exists>k. s \<le> k \<and> k \<le> e \<and> arr ! nat k = p) \<longrightarrow> s < s' \<and> e' < e)"
        by blast
      then show ?thesis by blast
    next
      case gt: False
      have "qs_loop arr p s e = qs_loop arr p s1 e1"
        using True gt s1(1) e1(1) by (subst qs_loop.simps) simp
      also have "\<dots> = Some (arr, s1, e1)"
        using gt by (subst qs_loop.simps) simp
      finally have step: "qs_loop arr p s e = Some (arr, s1, e1)" .
      have hs: "s1 \<le> high" and le1: "low \<le> e1" and gt': "e1 < s1"
        using s1(3) ku(2) e1(3) kd(1) gt by simp_all
      have inv1: "part_inv arr p low high s1 e1"
        using inv s1(2) hs s1' e1(2) le1 e1' gt' by (rule part_inv_crossed)
      have no: "\<not> (\<exists>k. s \<le> k \<and> k \<le> e \<and> arr ! nat k = p)"
      proof
        assume "\<exists>k. s \<le> k \<and> k \<le> e \<and> arr ! nat k = p"
        then obtain k where k: "s \<le> k" "k \<le> e" "arr ! nat k = p" by blast
        have "s1 \<le> k" using s1' [of k] k(1,3) by (cases "k < s1") simp_all
        moreover have "k \<le> e1" using e1' [of k] k(2,3) by (cases "e1 < k") simp_all
        ultimately show False using gt by simp
      qed
      have "e1 < s1" using gt by simp
      with step inv1 s1(2) e1(2) no range_perm_refl [of arr low high]
      have "qs_loop arr p s e = Some (arr, s1, e1)
        \<and> part_inv arr p low high s1 e1 \<and> e1 < s1 \<and> s \<le> s1 \<and> e1 \<le> e
        \<and> range_perm arr arr low high
        \<and> ((\<exists>k. s \<le> k \<and> k \<le> e \<and> arr ! nat k = p) \<longrightarrow> s < s1 \<and> e1 < e)"
        by blast
      then show ?thesis by blast
    qed
  qed
qed

lemma go_div_2: "0 \<le> a \<Longrightarrow> go_div a 2 = a div 2"
  by (simp add: go_div_def)

lemma quickSort_spec:
  "(low < high \<longrightarrow> 0 \<le> low \<and> high < int (length arr)) \<Longrightarrow>
   \<exists>arr'. quickSort arr low high = Some arr' \<and> range_perm arr arr' low high
     \<and> (\<forall>i j. low \<le> i \<and> i \<le> j \<and> j \<le> high \<longrightarrow> arr' ! nat i \<le> arr' ! nat j)"
proof (induction "nat (high - low)" arbitrary: arr low high rule: less_induct)
  case less
  show ?case
  proof (cases "low < high")
    case False
    then have "quickSort arr low high = Some arr" by (subst quickSort.simps) simp
    moreover have "arr ! nat i \<le> arr ! nat j" if "low \<le> i \<and> i \<le> j \<and> j \<le> high" for i j
    proof -
      from that False have "i = j" by simp
      then show ?thesis by simp
    qed
    ultimately show ?thesis using range_perm_refl [of arr low high] by blast
  next
    case True
    with less.prems have b: "0 \<le> low" "high < int (length arr)" by simp_all
    define mid where "mid = (low + high) div 2"
    define p where "p = arr ! nat mid"
    have m: "low \<le> mid" "mid \<le> high" using True by (simp_all add: mid_def)
    have gd: "go_div (low + high) 2 = mid" using b(1) True by (simp add: go_div_2 mid_def)
    have ok: "index_ok arr mid" using m b by (simp add: index_ok_def)
    have inv0: "part_inv arr p low high low high"
    proof (rule part_invI)
      show "0 \<le> low" "high < int (length arr)" by (rule b)+
      show "low \<le> low" "low \<le> high + 1" "low - 1 \<le> high" "high \<le> high" using True by simp_all
      show "arr ! nat i \<le> p" if "low \<le> i" "i < low" for i using that by simp
      show "p \<le> arr ! nat i" if "high < i" "i \<le> high" for i using that by simp
      have "low \<le> mid \<and> mid \<le> high \<and> p \<le> arr ! nat mid" using m by (simp add: p_def)
      then show "\<exists>k. low \<le> k \<and> k \<le> high \<and> p \<le> arr ! nat k" by blast
      have "low \<le> mid \<and> mid \<le> high \<and> arr ! nat mid \<le> p" using m by (simp add: p_def)
      then show "\<exists>k. low \<le> k \<and> k \<le> high \<and> arr ! nat k \<le> p" by blast
    qed
    have piv: "\<exists>k. low \<le> k \<and> k \<le> high \<and> arr ! nat k = p"
    proof -
      have "low \<le> mid \<and> mid \<le> high \<and> arr ! nat mid = p" using m by (simp add: p_def)
      then show ?thesis by blast
    qed
    from qs_loop_spec [OF inv0] piv
    obtain arr1 s' e' where r: "qs_loop arr p low high = Some (arr1, s', e')"
      and inv1: "part_inv arr1 p low high s' e'" and cross: "e' < s'"
      and rp1: "range_perm arr arr1 low high" and strict: "low < s'" "e' < high"
      by blast
    note b1 = part_inv_bounds [OF inv1]
    have L1: "arr1 ! nat i \<le> p" if "low \<le> i" "i < s'" for i
      using inv1 that by (rule part_inv_left)
    have R1: "p \<le> arr1 ! nat i" if "e' < i" "i \<le> high" for i
      using inv1 that by (rule part_inv_right)
    have "nat (e' - low) < nat (high - low)" using strict True by simp
    moreover have "low < e' \<longrightarrow> 0 \<le> low \<and> e' < int (length arr1)"
      using b1 by simp
    ultimately obtain arr2 where q2: "quickSort arr1 low e' = Some arr2"
      and rp2: "range_perm arr1 arr2 low e'"
      and s2: "\<forall>i j. low \<le> i \<and> i \<le> j \<and> j \<le> e' \<longrightarrow> arr2 ! nat i \<le> arr2 ! nat j"
      using less.hyps [of e' low arr1] by blast
    have len2: "length arr2 = length arr1" using rp2 by (rule range_perm_length)
    have "nat (high - s') < nat (high - low)" using strict True by simp
    moreover have "s' < high \<longrightarrow> 0 \<le> s' \<and> high < int (length arr2)"
      using b1 len2 by simp
    ultimately obtain arr3 where q3: "quickSort arr2 s' high = Some arr3"
      and rp3: "range_perm arr2 arr3 s' high"
      and s3: "\<forall>i j. s' \<le> i \<and> i \<le> j \<and> j \<le> high \<longrightarrow> arr3 ! nat i \<le> arr3 ! nat j"
      using less.hyps [of high s' arr2] by blast
    have result: "quickSort arr low high = Some arr3"
      using True gd ok r q2 q3 by (subst quickSort.simps) (simp add: Let_def p_def)
    have rp: "range_perm arr arr3 low high"
    proof -
      have "range_perm arr1 arr2 low high"
        using rp2 b(1) _ b1(6) by (rule range_perm_mono) simp
      moreover have "range_perm arr2 arr3 low high"
        using rp3 b(1) b1(3) by (rule range_perm_mono) simp
      ultimately show ?thesis using rp1 by (blast intro: range_perm_trans)
    qed
    have out2: "arr2 ! nat i = arr1 ! nat i" if "e' < i" "0 \<le> i" for i
    proof (rule range_perm_outside [OF rp2])
      show "int (nat i) < low \<or> e' < int (nat i)" using that by simp
    qed
    have out3: "arr3 ! nat i = arr2 ! nat i" if "i < s'" "0 \<le> i" for i
    proof (rule range_perm_outside [OF rp3])
      show "int (nat i) < s' \<or> high < int (nat i)" using that by simp
    qed
    have A2: "arr2 ! nat i \<le> p" if "low \<le> i" "i \<le> e'" for i
    proof (rule range_perm_inside [where P = "\<lambda>x. x \<le> p", OF rp2 _ that])
      show "arr1 ! nat j \<le> p" if "low \<le> j" "j \<le> e'" for j
        using that cross by (intro L1) simp_all
    qed
    have A3: "arr3 ! nat i \<le> p" if "low \<le> i" "i < s'" for i
    proof -
      have i0: "0 \<le> i" using that(1) b(1) by simp
      show ?thesis
      proof (cases "i \<le> e'")
        case True
        then show ?thesis using out3 [OF that(2) i0] A2 [OF that(1)] by simp
      next
        case False
        then have "arr2 ! nat i = arr1 ! nat i" using out2 [of i] i0 by simp
        then show ?thesis using out3 [OF that(2) i0] L1 [OF that] by simp
      qed
    qed
    have B2: "p \<le> arr2 ! nat i" if "e' < i" "i \<le> high" for i
    proof -
      have "0 \<le> i" using that(1) b1(5) b(1) by simp
      then show ?thesis using out2 [OF that(1)] R1 [OF that] by simp
    qed
    have G: "p \<le> arr3 ! nat j" if "e' < j" "j \<le> high" for j
    proof (cases "j < s'")
      case True
      have "0 \<le> j" using that(1) b1(5) b(1) by simp
      then show ?thesis using out3 [OF True] B2 [OF that] by simp
    next
      case False
      then have sj: "s' \<le> j" by simp
      show ?thesis
      proof (rule range_perm_inside [where P = "\<lambda>x. p \<le> x", OF rp3 _ sj that(2)])
        show "p \<le> arr2 ! nat k" if "s' \<le> k" "k \<le> high" for k
          using that cross by (intro B2) simp_all
      qed
    qed
    have sorted: "arr3 ! nat i \<le> arr3 ! nat j" if ij: "low \<le> i \<and> i \<le> j \<and> j \<le> high" for i j
    proof (cases "j \<le> e'")
      case True
      have "0 \<le> i" "0 \<le> j" "i < s'" "j < s'" using ij b(1) True cross by simp_all
      then have "arr3 ! nat i = arr2 ! nat i" "arr3 ! nat j = arr2 ! nat j"
        using out3 by simp_all
      moreover have "arr2 ! nat i \<le> arr2 ! nat j" using s2 ij True by simp
      ultimately show ?thesis by simp
    next
      case False
      then have j: "e' < j" by simp
      show ?thesis
      proof (cases "i < s'")
        case True
        have "arr3 ! nat i \<le> p" using A3 [of i] ij True by simp
        moreover have "p \<le> arr3 ! nat j" using G [OF j] ij by simp
        ultimately show ?thesis by simp
      next
        case False
        then show ?thesis using s3 ij by simp
      qed
    qed
    from result rp sorted show ?thesis by blast
  qed
qed

text \<open>
  Claim C2. For every slice \<open>arr\<close> of integers, \<open>quickSort(arr, 0, len(arr)-1)\<close>
  returns, without an index panic, and leaves a nondecreasing permutation of the initial
  contents.
\<close>

theorem quickSort_sorts:
  "\<exists>ys. quickSort arr 0 (int (length arr) - 1) = Some ys \<and> sorted ys \<and> mset ys = mset arr"
proof -
  have "0 < int (length arr) - 1 \<longrightarrow> (0::int) \<le> 0 \<and> int (length arr) - 1 < int (length arr)"
    by simp
  from quickSort_spec [OF this]
  obtain ys where q: "quickSort arr 0 (int (length arr) - 1) = Some ys"
    and rp: "range_perm arr ys 0 (int (length arr) - 1)"
    and s: "\<forall>i j. 0 \<le> i \<and> i \<le> j \<and> j \<le> int (length arr) - 1 \<longrightarrow> ys ! nat i \<le> ys ! nat j"
    by blast
  have len: "length ys = length arr" using rp by (rule range_perm_length)
  have "ys ! i \<le> ys ! j" if "i \<le> j" "j < length ys" for i j
    using s [rule_format, of "int i" "int j"] that len by simp
  then have "sorted ys" by (simp add: sorted_iff_nth_mono)
  with q range_perm_mset [OF rp] show ?thesis by blast
qed

subsection \<open>WordCount\<close>

text \<open>What \<open>WordCount\<close> computes on a non-empty string: the number of maximal runs of
  non-space characters, less one when the string starts with a space.\<close>

lemma word_runs_from_ends:
  "word_runs_from inside s =
     word_ends s + (if s \<noteq> [] \<and> last s \<noteq> CHR '' '' then 1 else 0)
       - (if inside \<and> s \<noteq> [] \<and> hd s \<noteq> CHR '' '' then 1 else 0)"
proof (induction s arbitrary: inside)
  case Nil
  then show ?case by simp
next
  case (Cons c cs)
  have "word_runs_from inside (c # cs) =
      (if c = CHR '' '' then word_runs_from False cs
       else (if inside then 0 else 1) + word_runs_from True cs)"
    by simp
  also have "\<dots> =
      (if c = CHR '' ''
       then word_ends cs + (if cs \<noteq> [] \<and> last cs \<noteq> CHR '' '' then 1 else 0)
       else (if inside then 0 else 1) + (word_ends cs
              + (if cs \<noteq> [] \<and> last cs \<noteq> CHR '' '' then 1 else 0)
              - (if cs \<noteq> [] \<and> hd cs \<noteq> CHR '' '' then 1 else 0)))"
    by (simp only: Cons.IH) simp
  also have "\<dots> = word_ends (c # cs)
       + (if c # cs \<noteq> [] \<and> last (c # cs) \<noteq> CHR '' '' then 1 else 0)
       - (if inside \<and> c # cs \<noteq> [] \<and> hd (c # cs) \<noteq> CHR '' '' then 1 else 0)"
    by (cases cs) auto
  finally show ?case .
qed

lemma word_ends_drop:
  assumes "Suc i < length s"
  shows "word_ends (drop i s) =
     (if s ! i \<noteq> CHR '' '' \<and> s ! Suc i = CHR '' '' then 1 else 0) + word_ends (drop (Suc i) s)"
proof -
  have "drop i s = s ! i # s ! Suc i # drop (Suc (Suc i)) s"
    using assms by (simp add: Cons_nth_drop_Suc Suc_lessD)
  moreover have "drop (Suc i) s = s ! Suc i # drop (Suc (Suc i)) s"
    using assms by (simp add: Cons_nth_drop_Suc)
  ultimately show ?thesis by simp
qed

lemma WordCount_loop_ends:
  "0 < i \<Longrightarrow> i \<le> length s \<Longrightarrow> WordCount_loop s i cnt = cnt + word_ends (drop (i - 1) s)"
proof (induction s i cnt rule: WordCount_loop.induct)
  case (1 s i cnt)
  show ?case
  proof (cases "i < length s")
    case False
    have e: "word_ends (drop (i - 1) s) = 0"
    proof (cases "drop (i - 1) s")
      case Nil
      then show ?thesis by simp
    next
      case (Cons c cs)
      have "length (drop (i - 1) s) \<le> 1" using False by simp
      with Cons have "cs = []" by simp
      with Cons show ?thesis by simp
    qed
    have "WordCount_loop s i cnt = cnt" using False by (subst WordCount_loop.simps) simp
    with e show ?thesis by simp
  next
    case True
    from 1(2) obtain k where k: "i = Suc k" by (cases i) auto
    from "1.IH" [OF True] True 1(2)
    have "WordCount_loop s (i + 1)
            (if s ! i = CHR '' '' \<and> 0 < i \<and> s ! (i - 1) \<noteq> CHR '' '' then cnt + 1 else cnt)
          = (if s ! i = CHR '' '' \<and> 0 < i \<and> s ! (i - 1) \<noteq> CHR '' '' then cnt + 1 else cnt)
            + word_ends (drop i s)"
      by simp
    moreover have "WordCount_loop s i cnt = WordCount_loop s (i + 1)
            (if s ! i = CHR '' '' \<and> 0 < i \<and> s ! (i - 1) \<noteq> CHR '' '' then cnt + 1 else cnt)"
      using True by (subst WordCount_loop.simps) simp
    moreover have "word_ends (drop k s) =
       (if s ! k \<noteq> CHR '' '' \<and> s ! Suc k = CHR '' '' then 1 else 0) + word_ends (drop (Suc k) s)"
      using True k by (intro word_ends_drop) simp
    ultimately show ?thesis using k by auto
  qed
qed

lemma WordCount_runs:
  assumes "s \<noteq> []"
  shows "WordCount s = word_runs s - (if hd s = CHR '' '' then 1 else 0)"
proof -
  have "WordCount_loop s 0 1 = WordCount_loop s 1 1"
    using assms by (subst WordCount_loop.simps) simp
  also have "\<dots> = 1 + word_ends s"
    using assms WordCount_loop_ends [of 1 s 1] by (simp add: Suc_le_eq)
  finally have l: "WordCount_loop s 0 1 = 1 + word_ends s" .
  have h: "s ! 0 = hd s" and t: "s ! (length s - 1) = last s"
    using assms by (simp_all add: hd_conv_nth last_conv_nth)
  show ?thesis
    using assms l h t word_runs_from_ends [of False s]
    by (simp add: WordCount_def word_runs_def Let_def)
qed

text \<open>
  Claim C8. \<open>WordCount\<close> is claimed to return the number of maximal runs of non-space
  characters, with \<open>WordCount("") = 0\<close>, \<open>WordCount("hello world") = 2\<close> and
  \<open>WordCount("   spaced   words   ") = 2\<close>, as the table of \<open>TestWordCount\<close> expects.
  The first two hold. On the third input the code returns \<open>1\<close> although the string has
  two runs: the loop counts one boundary after each of the two words, and then both the
  leading-space and the trailing-space correction subtract one.
\<close>

theorem WordCount_spaced_words:
  "WordCount '''' = 0 \<and> WordCount ''hello world'' = 2
   \<and> WordCount ''   spaced   words   '' = 1
   \<and> word_runs ''   spaced   words   '' = 2"
  by (simp add: WordCount_def word_runs_def)

subsection \<open>The worker pool\<close>

lemma sum_list_map_update:
  fixes f :: "'a \<Rightarrow> 'b::comm_monoid_add"
  shows "i < length xs \<Longrightarrow>
    sum_list (map f (xs[i := x])) + f (xs ! i) = sum_list (map f xs) + f x"
proof (induction xs arbitrary: i)
  case Nil
  then show ?case by simp
next
  case (Cons a xs)
  show ?case
  proof (cases i)
    case 0
    then show ?thesis by (simp add: ac_simps)
  next
    case (Suc k)
    with Cons.prems have "k < length xs" by simp
    from Cons.IH [OF this] Suc show ?thesis by (simp add: ac_simps)
  qed
qed

lemma held_replicate: "sum_list (replicate n ({#} :: int multiset)) = {#}"
  by (induction n) simp_all

lemma pool_inv_init: "pool_inv pool_init"
  unfolding pool_inv_def pool_init_def by (simp add: held_replicate)


lemma pool_inv_closer:
  assumes "pool_inv s" "fire_closer s = Some s'"
  shows "pool_inv s'"
proof (cases "closer s")
  case CloserNotStarted
  with assms(2) show ?thesis by (simp add: fire_closer_def)
next
  case Waiting
  with assms(2) have z: "wg s = 0" and s': "s' = s\<lparr>closer := Closing\<rparr>"
    by (auto simp: fire_closer_def split: if_splits)
  from assms(1) Waiting have m: "main s \<in> {Collecting, Returned}"
    by (auto simp: pool_inv_def)
  then have p: "pending_add (main s) = 0" "started (main s) = numWorkers" by auto
  with assms(1) z have "sum_list (map active (workers s)) = 0" by (simp add: pool_inv_def)
  then have a: "\<forall>w\<in>set (workers s). active w = 0" by simp
  have "workers s ! i = Exited" if "i < numWorkers" for i
  proof -
    from assms(1) that have "workers s ! i \<in> set (workers s)" by (simp add: pool_inv_def)
    with a have "active (workers s ! i) = 0" by blast
    moreover from assms(1) that p have "workers s ! i \<noteq> NotStarted" by (simp add: pool_inv_def)
    ultimately show ?thesis by (cases "workers s ! i") simp_all
  qed
  with assms(1) Waiting show ?thesis unfolding s' by (auto simp: pool_inv_def)
next
  case Closing
  with assms show ?thesis
    by (auto simp: fire_closer_def pool_inv_def split: if_splits)
next
  case CloserDone
  with assms(2) show ?thesis by (simp add: fire_closer_def)
qed


lemma upto_snoc_mset: "1 \<le> j \<Longrightarrow> mset [1..j] = add_mset j (mset [1..j - 1])"
  by (simp add: upto_rec2)

lemma pool_inv_main:
  assumes inv: "pool_inv s" and f: "fire_main s = Some s'"
  shows "pool_inv s'"
proof (cases "main s")
  case (AddWorker w)
  show ?thesis
  proof (cases "w \<le> numWorkers")
    case True
    with f AddWorker have s': "s' = s\<lparr>wg := wg s + 1, main := GoWorker w\<rparr>"
      by (simp add: fire_main_def)
    from inv AddWorker True show ?thesis unfolding s' by (auto simp: pool_inv_def)
  next
    case False
    with f AddWorker have s': "s' = s\<lparr>main := SendJob 1\<rparr>"
      by (simp add: fire_main_def)
    from inv AddWorker False have "w = numWorkers + 1" by (simp add: pool_inv_def)
    with inv AddWorker show ?thesis unfolding s' by (auto simp: pool_inv_def numJobs_def)
  qed
next
  case (GoWorker w)
  with f have s': "s' = s\<lparr>workers := (workers s)[w - 1 := Receiving], main := AddWorker (w + 1)\<rparr>"
    by (simp add: fire_main_def)
  from inv GoWorker have w: "1 \<le> w" "w \<le> numWorkers" and len: "length (workers s) = numWorkers"
    by (simp_all add: pool_inv_def)
  then have i: "w - 1 < length (workers s)" by simp
  from inv GoWorker w have ns: "workers s ! (w - 1) = NotStarted"
    by (simp add: pool_inv_def)
  from sum_list_map_update [OF i, of active Receiving] ns
  have a: "sum_list (map active ((workers s)[w - 1 := Receiving])) = sum_list (map active (workers s)) + 1"
    by simp
  from sum_list_map_update [OF i, of held Receiving] ns
  have h: "sum_list (map held ((workers s)[w - 1 := Receiving])) = sum_list (map held (workers s))"
    by simp
  have st: "((workers s)[w - 1 := Receiving] ! k = NotStarted) = (w \<le> k)" if "k < numWorkers" for k
  proof (cases "k = w - 1")
    case True
    with i w show ?thesis by simp
  next
    case False
    with inv GoWorker that have "(workers s ! k = NotStarted) = (w - 1 \<le> k)"
      by (simp add: pool_inv_def)
    with False w show ?thesis by auto
  qed
  have ex: "(workers s)[w - 1 := Receiving] ! k \<in> {Returning, Exited} \<longrightarrow> jobs s = [] \<and> jobs_closed s"
    if "k < numWorkers" for k
  proof (cases "k = w - 1")
    case True
    with i show ?thesis by simp
  next
    case False
    from inv that have "workers s ! k \<in> {Returning, Exited} \<longrightarrow> jobs s = [] \<and> jobs_closed s"
      unfolding pool_inv_def by blast
    with False show ?thesis by simp
  qed
  from inv GoWorker w have c: "closer s = CloserNotStarted" by (simp add: pool_inv_def)
  from inv GoWorker w a h st ex c show ?thesis unfolding s'
    by (auto simp: pool_inv_def)
next
  case (SendJob j)
  show ?thesis
  proof (cases "j \<le> numJobs")
    case True
    from inv SendJob have nc: "\<not> jobs_closed s" by (simp add: pool_inv_def)
    with f SendJob True have s': "s' = s\<lparr>jobs := jobs s @ [j], main := SendJob (j + 1)\<rparr>"
      by (auto simp: fire_main_def split: if_splits)
    from inv SendJob have j: "1 \<le> j" by (simp add: pool_inv_def)
    from inv nc have ne: "\<forall>i<numWorkers. workers s ! i \<notin> {Returning, Exited}"
      by (auto simp: pool_inv_def)
    from inv SendJob j True ne show ?thesis unfolding s'
      by (auto simp: pool_inv_def upto_snoc_mset)
  next
    case False
    with f SendJob have s': "s' = s\<lparr>main := CloseJobs\<rparr>" by (simp add: fire_main_def)
    from inv SendJob False have "j = numJobs + 1" by (simp add: pool_inv_def)
    with inv SendJob show ?thesis unfolding s' by (auto simp: pool_inv_def)
  qed
next
  case CloseJobs
  from inv CloseJobs have nc: "\<not> jobs_closed s" by (simp add: pool_inv_def)
  with f CloseJobs have s': "s' = s\<lparr>jobs_closed := True, main := GoCloser\<rparr>"
    by (simp add: fire_main_def)
  from inv nc have ne: "\<forall>i<numWorkers. workers s ! i \<notin> {Returning, Exited}"
    by (auto simp: pool_inv_def)
  from inv CloseJobs ne show ?thesis unfolding s' by (auto simp: pool_inv_def)
next
  case GoCloser
  with f have s': "s' = s\<lparr>closer := Waiting, main := Collecting\<rparr>" by (simp add: fire_main_def)
  from inv GoCloser show ?thesis unfolding s' by (auto simp: pool_inv_def)
next
  case Collecting
  show ?thesis
  proof (cases "results s")
    case Nil
    with f Collecting have rc: "results_closed s" and s': "s' = s\<lparr>main := Returned\<rparr>"
      by (auto simp: fire_main_def split: if_splits)
    from inv Collecting Nil rc show ?thesis unfolding s' by (auto simp: pool_inv_def)
  next
    case (Cons r rs)
    with f Collecting have s': "s' = s\<lparr>results := rs, printed := printed s @ [r]\<rparr>"
      by (simp add: fire_main_def)
    from inv Collecting Cons show ?thesis unfolding s' by (auto simp: pool_inv_def)
  qed
next
  case Returned
  with f show ?thesis by (simp add: fire_main_def)
qed


lemma pool_inv_worker:
  assumes inv: "pool_inv s" and f: "fire_worker i s = Some s'"
  shows "pool_inv s'"
proof -
  from f have i: "i < length (workers s)" by (auto simp: fire_worker_def split: if_splits)
  from inv have len: "length (workers s) = numWorkers" by (simp add: pool_inv_def)
  note a = sum_list_map_update [OF i, of active]
  note h = sum_list_map_update [OF i, of held]
  have nth: "(workers s)[i := x] ! k = (if k = i then x else workers s ! k)"
    if "k < numWorkers" for k x
    using that len by (simp add: nth_list_update)
  have busy: "closer s \<notin> {Closing, CloserDone} \<and> \<not> results_closed s \<and> main s \<noteq> Returned"
    if "workers s ! i \<noteq> Exited"
    using inv that i len unfolding pool_inv_def by auto
  show ?thesis
  proof (cases "workers s ! i")
    case NotStarted
    with f i show ?thesis by (simp add: fire_worker_def)
  next
    case Exited
    with f i show ?thesis by (simp add: fire_worker_def)
  next
    case Receiving
    note b = busy [unfolded Receiving, simplified]
    show ?thesis
    proof (cases "jobs s")
      case Nil
      with f i Receiving have jc: "jobs_closed s"
        and s': "s' = s\<lparr>workers := (workers s)[i := Returning]\<rparr>"
        by (auto simp: fire_worker_def split: if_splits)
      from a [of Returning] h [of Returning] Receiving
      have "sum_list (map active ((workers s)[i := Returning])) = sum_list (map active (workers s))"
        and "sum_list (map held ((workers s)[i := Returning])) = sum_list (map held (workers s))"
        by simp_all
      with inv Receiving Nil jc b i len show ?thesis unfolding s'
        by (auto simp: pool_inv_def nth)
    next
      case (Cons job js)
      with f i Receiving
      have s': "s' = s\<lparr>jobs := js, processed := processed s @ [(i + 1, job)],
                        workers := (workers s)[i := Sending job]\<rparr>"
        by (simp add: fire_worker_def)
      from inv Cons have none: "\<forall>k<numWorkers. workers s ! k \<notin> {Returning, Exited}"
        unfolding pool_inv_def by auto
      from a [of "Sending job"] h [of "Sending job"] Receiving
      have "sum_list (map active ((workers s)[i := Sending job])) = sum_list (map active (workers s))"
        and "sum_list (map held ((workers s)[i := Sending job]))
               = sum_list (map held (workers s)) + {#job * 2#}"
        by simp_all
      with inv Receiving Cons b i len none show ?thesis unfolding s'
        by (auto simp: pool_inv_def nth)
    qed
  next
    case (Sending job)
    note b = busy [unfolded Sending, simplified]
    with f i Sending
    have s': "s' = s\<lparr>results := results s @ [job * 2], workers := (workers s)[i := Receiving]\<rparr>"
      by (auto simp: fire_worker_def split: if_splits)
    from a [of Receiving] h [of Receiving] Sending
    have "sum_list (map active ((workers s)[i := Receiving])) = sum_list (map active (workers s))"
      and "sum_list (map held ((workers s)[i := Receiving])) + {#job * 2#}
             = sum_list (map held (workers s))"
      by simp_all
    with inv Sending b i len show ?thesis unfolding s'
      by (auto simp: pool_inv_def nth)
  next
    case Returning
    note b = busy [unfolded Returning, simplified]
    from a [of Exited] h [of Exited] Returning
    have a': "sum_list (map active ((workers s)[i := Exited])) + 1 = sum_list (map active (workers s))"
      and h': "sum_list (map held ((workers s)[i := Exited])) = sum_list (map held (workers s))"
      by simp_all
    from inv have "wg s = int (sum_list (map active (workers s))) + pending_add (main s)"
      by (simp add: pool_inv_def)
    moreover have "0 \<le> pending_add (main s)" by (cases "main s") simp_all
    ultimately have "\<not> wg s - 1 < 0" using a' by simp
    with f i Returning have s': "s' = s\<lparr>wg := wg s - 1, workers := (workers s)[i := Exited]\<rparr>"
      by (simp add: fire_worker_def)
    from inv i len Returning have je: "jobs s = [] \<and> jobs_closed s"
      unfolding pool_inv_def by auto
    from inv Returning b i len a' h' je show ?thesis unfolding s'
      by (auto simp: pool_inv_def nth)
  qed
qed


lemma pool_inv_fire: "pool_inv s \<Longrightarrow> fire a s = Some s' \<Longrightarrow> pool_inv s'"
  by (cases a)
    (auto simp: fire_def split: if_splits
      intro: pool_inv_main pool_inv_worker pool_inv_closer)

lemma pool_inv_run: "pool_inv s \<Longrightarrow> run_pool sched s = Some s' \<Longrightarrow> pool_inv s'"
proof (induction sched arbitrary: s)
  case Nil
  then show ?case by simp
next
  case (Cons a sched)
  then show ?case by (auto split: option.splits dest: pool_inv_fire)
qed

lemma pool_measure_main:
  assumes inv: "pool_inv s" and f: "fire_main s = Some s'"
  shows "pool_measure s' < pool_measure s"
proof (cases "main s")
  case (GoWorker w)
  with f have s': "s' = s\<lparr>workers := (workers s)[w - 1 := Receiving], main := AddWorker (w + 1)\<rparr>"
    by (simp add: fire_main_def)
  from inv GoWorker have w: "1 \<le> w" "w \<le> numWorkers" and len: "length (workers s) = numWorkers"
    by (simp_all add: pool_inv_def)
  then have i: "w - 1 < length (workers s)" by simp
  from inv GoWorker w have ns: "workers s ! (w - 1) = NotStarted"
    by (simp add: pool_inv_def)
  from sum_list_map_update [OF i, of worker_rank Receiving] ns
  have "sum_list (map worker_rank ((workers s)[w - 1 := Receiving])) + 3
          = sum_list (map worker_rank (workers s)) + 2"
    by simp
  with GoWorker w show ?thesis unfolding s' by (simp add: pool_measure_def)
next
  case (AddWorker w)
  with f show ?thesis
    by (auto simp: fire_main_def pool_measure_def numJobs_def split: if_splits)
next
  case (SendJob j)
  from inv have "\<not> panicked s" by (simp add: pool_inv_def)
  with f SendJob show ?thesis
    by (auto simp: fire_main_def pool_measure_def split: if_splits)
next
  case CloseJobs
  from inv have "\<not> panicked s" by (simp add: pool_inv_def)
  with f CloseJobs show ?thesis
    by (auto simp: fire_main_def pool_measure_def split: if_splits)
next
  case GoCloser
  with inv have "closer s = CloserNotStarted" by (simp add: pool_inv_def)
  with f GoCloser show ?thesis by (auto simp: fire_main_def pool_measure_def)
next
  case Collecting
  with f show ?thesis
    by (auto simp: fire_main_def pool_measure_def split: if_splits list.splits)
next
  case Returned
  with f show ?thesis by (simp add: fire_main_def)
qed

lemma pool_measure_worker:
  assumes inv: "pool_inv s" and f: "fire_worker i s = Some s'"
  shows "pool_measure s' < pool_measure s"
proof -
  from f have i: "i < length (workers s)" by (auto simp: fire_worker_def split: if_splits)
  from inv have np: "\<not> panicked s" by (simp add: pool_inv_def)
  note r = sum_list_map_update [OF i, of worker_rank]
  show ?thesis
  proof (cases "workers s ! i")
    case NotStarted
    with f i show ?thesis by (simp add: fire_worker_def)
  next
    case Exited
    with f i show ?thesis by (simp add: fire_worker_def)
  next
    case Receiving
    from r [of Returning] r [of "Sending job" for job] Receiving
    have "sum_list (map worker_rank ((workers s)[i := Returning])) + 2
            = sum_list (map worker_rank (workers s)) + 1"
      and "\<And>job. sum_list (map worker_rank ((workers s)[i := Sending job])) + 2
            = sum_list (map worker_rank (workers s)) + 4"
      by simp_all
    with f i Receiving show ?thesis
      by (auto simp: fire_worker_def pool_measure_def split: if_splits list.splits)
  next
    case (Sending job)
    from r [of Receiving] Sending
    have "sum_list (map worker_rank ((workers s)[i := Receiving])) + 4
            = sum_list (map worker_rank (workers s)) + 2"
      by simp
    with f i Sending np show ?thesis
      by (auto simp: fire_worker_def pool_measure_def split: if_splits)
  next
    case Returning
    from r [of Exited] Returning
    have "sum_list (map worker_rank ((workers s)[i := Exited])) + 1
            = sum_list (map worker_rank (workers s))"
      by simp
    with f i Returning np show ?thesis
      by (auto simp: fire_worker_def pool_measure_def split: if_splits)
  qed
qed

lemma pool_measure_closer:
  assumes inv: "pool_inv s" and f: "fire_closer s = Some s'"
  shows "pool_measure s' < pool_measure s"
proof -
  from inv have "\<not> panicked s" by (simp add: pool_inv_def)
  with f show ?thesis
    by (cases "closer s") (auto simp: fire_closer_def pool_measure_def split: if_splits)
qed

lemma pool_measure_fire:
  "pool_inv s \<Longrightarrow> fire a s = Some s' \<Longrightarrow> pool_measure s' < pool_measure s"
  by (cases a)
    (auto simp: fire_def split: if_splits
      intro: pool_measure_main pool_measure_worker pool_measure_closer)


lemma pool_sizes:
  assumes "pool_inv s"
  shows "int (length (jobs s)) \<le> sent (main s)"
    and "size (sum_list (map held (workers s))) + length (results s) \<le> nat numJobs"
proof -
  from assms have j: "mset (map snd (processed s)) + mset (jobs s) = mset [1..sent (main s)]"
    and r: "image_mset (\<lambda>job. job * 2) (mset (map snd (processed s)))
          = sum_list (map held (workers s)) + mset (results s) + mset (printed s)"
    and rg: "pc_in_range (main s)"
    by (simp_all add: pool_inv_def)
  have s0: "0 \<le> sent (main s)" "sent (main s) \<le> numJobs"
    using rg by (cases "main s"; simp add: numJobs_def)+
  from j have "size (mset (map snd (processed s)) + mset (jobs s)) = size (mset [1..sent (main s)])"
    by simp
  then have sz: "length (processed s) + length (jobs s) = nat (sent (main s))"
    using s0 by simp
  then show "int (length (jobs s)) \<le> sent (main s)" using s0 by linarith
  from r have "size (image_mset (\<lambda>job. job * 2) (mset (map snd (processed s))))
      = size (sum_list (map held (workers s)) + mset (results s) + mset (printed s))"
    by simp
  then have "length (processed s)
      = size (sum_list (map held (workers s))) + length (results s) + length (printed s)"
    by simp
  with sz s0 show "size (sum_list (map held (workers s))) + length (results s) \<le> nat numJobs"
    by linarith
qed

lemma held_member:
  "i < length ws \<Longrightarrow> ws ! i = Sending job \<Longrightarrow> 1 \<le> size (sum_list (map held ws))"
proof (induction ws arbitrary: i)
  case Nil
  then show ?case by simp
next
  case (Cons w ws)
  then show ?case by (cases i) (auto simp: trans_le_add2)
qed

lemma active_member:
  "i < length ws \<Longrightarrow> active (ws ! i) = 1 \<Longrightarrow> 1 \<le> sum_list (map active ws)"
proof (induction ws arbitrary: i)
  case Nil
  then show ?case by simp
next
  case (Cons w ws)
  then show ?case by (cases i) (auto simp: trans_le_add2)
qed

lemma pool_progress:
  assumes inv: "pool_inv s" and run: "main s \<noteq> Returned"
  shows "\<exists>a s'. fire a s = Some s'"
proof -
  from inv have np: "\<not> panicked s" and len: "length (workers s) = numWorkers"
    by (simp_all add: pool_inv_def)
  have main_moves: "\<exists>s'. fire Main s = Some s'" if "fire_main s \<noteq> None"
    using that np by (auto simp: fire_def)
  show ?thesis
  proof (cases "fire_main s")
    case (Some s')
    then show ?thesis using main_moves by blast
  next
    case None
    have "main s = Collecting"
    proof (cases "main s")
      case (SendJob j)
      from pool_sizes(1) [OF inv] SendJob have "int (length (jobs s)) \<le> j - 1" by simp
      with None SendJob show ?thesis by (auto simp: fire_main_def split: if_splits)
    qed (use None run in \<open>auto simp: fire_main_def split: if_splits\<close>)
    with None have re: "results s = []" and nrc: "\<not> results_closed s"
      by (auto simp: fire_main_def split: list.splits if_splits)
    from inv \<open>main s = Collecting\<close> nrc
    have c: "closer s = Waiting \<or> closer s = Closing" and jc: "jobs_closed s"
      and wg: "wg s = int (sum_list (map active (workers s)))"
      and st: "\<forall>i<numWorkers. workers s ! i \<noteq> NotStarted"
      unfolding pool_inv_def by (cases "closer s"; auto)+
    show ?thesis
    proof (cases "fire_closer s")
      case (Some s')
      then show ?thesis using np by (auto simp: fire_def intro: exI [of _ Closer])
    next
      case None
      with c nrc have "closer s = Waiting" "wg s \<noteq> 0"
        by (auto simp: fire_closer_def split: if_splits)
      with wg have "sum_list (map active (workers s)) \<noteq> 0" by simp
      then obtain w where "w \<in> set (workers s)" "active w \<noteq> 0" by auto
      then obtain i where i: "i < length (workers s)" and w: "active (workers s ! i) \<noteq> 0"
        by (auto simp: in_set_conv_nth)
      have "fire_worker i s \<noteq> None"
      proof (cases "workers s ! i")
        case (Sending job)
        from held_member [OF i Sending] pool_sizes(2) [OF inv]
        have "int (length (results s)) < numJobs" by linarith
        with i Sending nrc show ?thesis by (simp add: fire_worker_def)
      next
        case Returning
        have "active (workers s ! i) = 1" using Returning by simp
        from active_member [OF i this] wg have "\<not> wg s - 1 < 0" by linarith
        with i Returning show ?thesis by (simp add: fire_worker_def)
      next
        case Receiving
        with i jc show ?thesis by (simp add: fire_worker_def split: list.splits)
      qed (use w in simp_all)
      then show ?thesis using np by (auto simp: fire_def intro: exI [of _ "Worker i"])
    qed
  qed
qed

lemma held_none:
  "\<forall>i<length ws. ws ! i = Exited \<Longrightarrow> sum_list (map held ws) = {#}"
proof (induction ws)
  case Nil
  then show ?case by simp
next
  case (Cons w ws)
  from Cons.prems have "w = Exited" "\<forall>i<length ws. ws ! i = Exited" by auto
  with Cons.IH show ?case by simp
qed

lemma pool_final:
  assumes inv: "pool_inv s" and fin: "main s = Returned"
  shows "mset (printed s) = mset (map (\<lambda>job. job * 2) [1..numJobs])"
    and "mset (map snd (processed s)) = mset [1..numJobs]"
    and "results_closed s" "results s = []" "jobs s = []"
proof -
  from inv fin have rc: "results_closed s" and re: "results s = []"
    unfolding pool_inv_def by blast+
  from inv rc have "closer s = CloserDone" unfolding pool_inv_def by blast
  with inv have ex: "\<forall>i<numWorkers. workers s ! i = Exited" by (simp add: pool_inv_def)
  from inv have len: "length (workers s) = numWorkers" by (simp add: pool_inv_def)
  have "0 < numWorkers" by (simp add: numWorkers_def)
  with inv ex have je: "jobs s = []" unfolding pool_inv_def by auto
  from ex len have h: "sum_list (map held (workers s)) = {#}" by (simp add: held_none)
  from inv fin je show p: "mset (map snd (processed s)) = mset [1..numJobs]"
    by (simp add: pool_inv_def)
  from inv h re have "mset (printed s) = image_mset (\<lambda>job. job * 2) (mset (map snd (processed s)))"
    by (simp add: pool_inv_def)
  with p show "mset (printed s) = mset (map (\<lambda>job. job * 2) [1..numJobs])" by simp
  show "results_closed s" "results s = []" "jobs s = []" by fact+
qed


lemma pool_run_length:
  "pool_inv s \<Longrightarrow> run_pool sched s = Some s' \<Longrightarrow>
     length sched + pool_measure s' \<le> pool_measure s"
proof (induction sched arbitrary: s)
  case Nil
  then show ?case by simp
next
  case (Cons a sched)
  from Cons.prems(2) obtain s1 where f: "fire a s = Some s1" and r: "run_pool sched s1 = Some s'"
    by (auto split: option.splits)
  from pool_inv_fire [OF Cons.prems(1) f] have "pool_inv s1" .
  from Cons.IH [OF this r] pool_measure_fire [OF Cons.prems(1) f] show ?case by simp
qed

text \<open>
  Claim C5. In every state that an interleaving of the goroutines of \<open>WorkerPool\<close> can
  reach: nothing has panicked; every step lowers a natural-number measure and the run
  so far is no longer than the measure of the initial state, so every run is finite;
  until the caller has returned some goroutine can move, so no run is stuck before the
  collecting loop ends; \<open>results\<close> is closed only when all workers have ended; every
  processed job was taken by one of the workers \<open>1\<close> to \<open>3\<close>; and when the caller has
  returned, the jobs processed are exactly \<open>1..10\<close>, each once, the values received
  from \<open>results\<close> are exactly their doubles, \<open>results\<close> is closed and both channels
  are empty.
\<close>

theorem WorkerPool_drains:
  "run_pool sched pool_init = Some s \<Longrightarrow>
     \<not> panicked s
     \<and> length sched + pool_measure s \<le> pool_measure pool_init
     \<and> (\<forall>a s'. fire a s = Some s' \<longrightarrow> pool_measure s' < pool_measure s)
     \<and> (main s \<noteq> Returned \<longrightarrow> (\<exists>a s'. fire a s = Some s'))
     \<and> (results_closed s \<longrightarrow> (\<forall>i<numWorkers. workers s ! i = Exited))
     \<and> (\<forall>e\<in>set (processed s). 1 \<le> fst e \<and> fst e \<le> numWorkers)
     \<and> (main s = Returned \<longrightarrow>
          mset (map snd (processed s)) = mset [1..numJobs]
          \<and> mset (printed s) = mset (map (\<lambda>job. job * 2) [1..numJobs])
          \<and> results_closed s \<and> results s = [] \<and> jobs s = [])"
proof -
  assume run: "run_pool sched pool_init = Some s"
  from pool_inv_run [OF pool_inv_init run] have inv: "pool_inv s" .
  have "\<not> panicked s" using inv by (simp add: pool_inv_def)
  moreover have "length sched + pool_measure s \<le> pool_measure pool_init"
    using pool_inv_init run by (rule pool_run_length)
  moreover have "\<forall>a s'. fire a s = Some s' \<longrightarrow> pool_measure s' < pool_measure s"
    using inv by (blast intro: pool_measure_fire)
  moreover have "main s \<noteq> Returned \<longrightarrow> (\<exists>a s'. fire a s = Some s')"
    using inv by (blast intro: pool_progress)
  moreover have "results_closed s \<longrightarrow> (\<forall>i<numWorkers. workers s ! i = Exited)"
    using inv unfolding pool_inv_def by blast
  moreover have "\<forall>e\<in>set (processed s). 1 \<le> fst e \<and> fst e \<le> numWorkers"
    using inv unfolding pool_inv_def by blast
  moreover have "main s = Returned \<longrightarrow>
          mset (map snd (processed s)) = mset [1..numJobs]
          \<and> mset (printed s) = mset (map (\<lambda>job. job * 2) [1..numJobs])
          \<and> results_closed s \<and> results s = [] \<and> jobs s = []"
    using pool_final [OF inv] by blast
  ultimately show ?thesis by blast
qed

theorem WorkerPool_drains_witness:
  "run_pool sample_schedule pool_init = Some pool_done
   \<and> main pool_done = Returned \<and> results_closed pool_done
   \<and> workers pool_done ! 0 = Exited \<and> workers pool_done ! 1 = Exited
   \<and> workers pool_done ! 2 = Exited
   \<and> mset (map snd (processed pool_done)) = mset [1..numJobs]
   \<and> mset (printed pool_done) = mset (map (\<lambda>job. job * 2) [1..numJobs])
   \<and> length sample_schedule + pool_measure pool_done \<le> pool_measure pool_init
   \<and> run_pool (replicate 20 Main) pool_init = Some pool_loaded
   \<and> main pool_loaded \<noteq> Returned
   \<and> fire (Worker 1) pool_loaded
       = Some (pool_loaded\<lparr>jobs := [2, 3, 4, 5, 6, 7, 8, 9, 10], processed := [(2, 1)],
                 workers := [Receiving, Sending 1, Receiving]\<rparr>)
   \<and> pool_measure (pool_loaded\<lparr>jobs := [2, 3, 4, 5, 6, 7, 8, 9, 10], processed := [(2, 1)],
                 workers := [Receiving, Sending 1, Receiving]\<rparr>) < pool_measure pool_loaded"
proof -
  have r1: "run_pool sample_schedule pool_init = Some pool_done"
    by (simp add: sample_schedule_def pool_init_def pool_done_def fire_def fire_main_def
        fire_worker_def fire_closer_def numWorkers_def numJobs_def numeral_eq_Suc)
  have r2: "run_pool (replicate 20 Main) pool_init = Some pool_loaded"
    by (simp add: pool_init_def pool_loaded_def fire_def fire_main_def
        numWorkers_def numJobs_def numeral_eq_Suc)
  have m1: "main pool_done = Returned" "results_closed pool_done"
    by (simp_all add: pool_done_def)
  have m2: "main pool_loaded \<noteq> Returned" by (simp add: pool_loaded_def)
  have f: "fire (Worker 1) pool_loaded
       = Some (pool_loaded\<lparr>jobs := [2, 3, 4, 5, 6, 7, 8, 9, 10], processed := [(2, 1)],
                 workers := [Receiving, Sending 1, Receiving]\<rparr>)"
    by (simp add: pool_loaded_def fire_def fire_worker_def)
  note t1 = WorkerPool_drains [OF r1]
  note t2 = WorkerPool_drains [OF r2]
  from t1 m1 have "\<forall>i<numWorkers. workers pool_done ! i = Exited" by blast
  then have a: "workers pool_done ! 0 = Exited" "workers pool_done ! 1 = Exited"
    "workers pool_done ! 2 = Exited"
    by (simp_all add: numWorkers_def)
  from t1 m1 have b: "mset (map snd (processed pool_done)) = mset [1..numJobs]"
    and c: "mset (printed pool_done) = mset (map (\<lambda>job. job * 2) [1..numJobs])"
    and d: "length sample_schedule + pool_measure pool_done \<le> pool_measure pool_init"
    by blast+
  from t2 f have e: "pool_measure (pool_loaded\<lparr>jobs := [2, 3, 4, 5, 6, 7, 8, 9, 10],
      processed := [(2, 1)], workers := [Receiving, Sending 1, Receiving]\<rparr>)
      < pool_measure pool_loaded"
    by blast
  from r1 r2 m1 m2 f a b c d e show ?thesis by blast
qed

end
